theory Spec2Isabelle
  imports
    Main
    "HOL-Library.Word"
    "HOL-Library.Log_Nat"
    "HOL-Library.Signed_Division"
begin

unbundle bit_operations_syntax

section \<open>Errors\<close>

text \<open>
  Every \<^verbatim>\<open>throw\<close> of the sources and every exception the JavaScript runtime or the
  big-integer library raises on the modelled paths is a value of \<open>error\<close>.
  \<^item> \<open>BadParameter\<close>: the \<^verbatim>\<open>RangeError\<close>s of \<^verbatim>\<open>generateKeyPair\<close> and of the vote codec;
  \<^item> \<open>BadPlaintext\<close>: \<^verbatim>\<open>Error("plaintext must be less than modulo n")\<close>;
  \<^item> \<open>BadCiphertext\<close>: \<^verbatim>\<open>Error("ciphertext must be less than modulo n^2")\<close>;
  \<^item> \<open>NotInValidSet\<close>: \<^verbatim>\<open>Error("Message m isn't included in the list of valid messages")\<close>;
  \<^item> \<open>MalformedCommitment\<close>: \<^verbatim>\<open>RangeError("Invalid commitment or valid messages")\<close>;
  \<^item> \<open>TypeError\<close>: the runtime's error for a method call on \<^verbatim>\<open>undefined\<close> and for
    \<^verbatim>\<open>reduce\<close> of an array without elements and without initial value;
  \<^item> \<open>InvalidArrayLength\<close>: the runtime's \<^verbatim>\<open>RangeError\<close> of \<^verbatim>\<open>new Array(len)\<close>;
  \<^item> \<open>DivideByZero\<close>, \<open>ZeroModulus\<close>, \<open>NotCoprime\<close>, \<open>ShiftTooLarge\<close>: the errors of
    big-integer's \<^verbatim>\<open>divide\<close>/\<^verbatim>\<open>mod\<close>, \<^verbatim>\<open>modPow\<close>, \<^verbatim>\<open>modInv\<close> and shifts;
  \<^item> \<open>OutOfRandomness\<close>: a sampling loop used up the finite list of draws handed to
    the model (the source would keep drawing).
\<close>

datatype error =
    BadParameter
  | BadPlaintext
  | BadCiphertext
  | NotInValidSet
  | MalformedCommitment
  | TypeError
  | InvalidArrayLength
  | DivideByZero
  | ZeroModulus
  | NotCoprime
  | ShiftTooLarge
  | OutOfRandomness

definition bindE :: "error + 'a \<Rightarrow> ('a \<Rightarrow> error + 'b) \<Rightarrow> error + 'b" where
  "bindE x f = (case x of Inl e \<Rightarrow> Inl e | Inr v \<Rightarrow> f v)"

fun sequenceE :: "(error + 'a) list \<Rightarrow> error + 'a list" where
  "sequenceE [] = Inr []"
| "sequenceE (x # xs) = bindE x (\<lambda>v. bindE (sequenceE xs) (\<lambda>vs. Inr (v # vs)))"

section \<open>The big-integer library\<close>

text \<open>
  \<^verbatim>\<open>BigInteger\<close> values are unbounded integers: \<open>int\<close>. \<^verbatim>\<open>divide\<close> truncates towards
  zero and \<^verbatim>\<open>mod\<close> takes the sign of the dividend (\<open>sdiv\<close> and \<open>smod\<close>); both throw
  on a zero divisor.
\<close>

definition big_divide :: "int \<Rightarrow> int \<Rightarrow> error + int" where
  "big_divide a b = (if b = 0 then Inl DivideByZero else Inr (a sdiv b))"

definition big_mod :: "int \<Rightarrow> int \<Rightarrow> error + int" where
  "big_mod a b = (if b = 0 then Inl DivideByZero else Inr (a smod b))"

text \<open>\<^verbatim>\<open>bitLength\<close>: the length of the magnitude, of \<open>-x - 1\<close> for a negative \<open>x\<close>.\<close>

definition bitLength :: "int \<Rightarrow> int" where
  "bitLength x = bitlen (if x < 0 then - x - 1 else x)"

text \<open>
  \<^verbatim>\<open>modInv\<close>: the extended Euclidean loop on \<open>(t, newT, r, newR)\<close>, started at
  \<open>(0, 1, n, |a|)\<close>; it throws unless the last remainder is a unit.
\<close>

function modInv_loop :: "int \<Rightarrow> int \<Rightarrow> int \<Rightarrow> int \<Rightarrow> int \<times> int" where
  "modInv_loop t newT r newR =
     (if newR = 0 then (t, r)
      else let q = r sdiv newR
           in modInv_loop newT (t - q * newT) newR (r - q * newR))"
  by pat_completeness auto
termination
proof (relation "measure (\<lambda>(t, newT, r, newR). nat \<bar>newR\<bar>)")
  show "wf (measure (\<lambda>(t, newT, r, newR). nat \<bar>newR\<bar>))" by simp
next
  fix t newT r newR q :: int
  assume nz: "newR \<noteq> 0" and q: "q = r sdiv newR"
  have "r - q * newR = r smod newR"
    unfolding q by (rule minus_sdiv_mult_eq_smod)
  moreover have "\<bar>r smod newR\<bar> < \<bar>newR\<bar>"
    using nz by (simp add: signed_modulo_int_def abs_mult abs_sgn_eq)
  ultimately show "((newT, t - q * newT, newR, r - q * newR), (t, newT, r, newR))
      \<in> measure (\<lambda>(t, newT, r, newR). nat \<bar>newR\<bar>)"
    by simp
qed

definition modInv :: "int \<Rightarrow> int \<Rightarrow> error + int" where
  "modInv a n =
     (case modInv_loop 0 1 n \<bar>a\<bar> of (t, r) \<Rightarrow>
        if \<bar>r\<bar> \<noteq> 1 then Inl NotCoprime
        else let t' = (if t < 0 then t + n else t)
             in if a < 0 then Inr (- t') else Inr t')"

text \<open>
  \<^verbatim>\<open>modPow\<close>: square and multiply on the base reduced by \<^verbatim>\<open>mod\<close>; a negative exponent
  inverts the base first; a zero base met while the exponent is positive returns 0.
\<close>

function modPow_loop :: "int \<Rightarrow> int \<Rightarrow> int \<Rightarrow> int \<Rightarrow> int" where
  "modPow_loop r base ex m =
     (if 0 < ex then
        (if base = 0 then 0
         else modPow_loop (if odd ex then (r * base) smod m else r)
                ((base * base) smod m) (ex sdiv 2) m)
      else r)"
  by pat_completeness auto
termination
  by (relation "measure (\<lambda>(r, base, ex, m). nat ex)")
     (auto simp add: signed_divide_int_def sgn_if)

definition modPow :: "int \<Rightarrow> int \<Rightarrow> int \<Rightarrow> error + int" where
  "modPow b ex m =
     (if m = 0 then Inl ZeroModulus
      else let base = b smod m
           in if ex < 0
              then bindE (modInv base m) (\<lambda>base'. Inr (modPow_loop 1 base' (- ex) m))
              else Inr (modPow_loop 1 base ex m))"

text \<open>
  \<^verbatim>\<open>shiftLeft\<close> and \<^verbatim>\<open>shiftRight\<close>: a shift count beyond \<open>10\<^sup>7\<close> in magnitude throws, a
  negative count shifts the other way, a right shift rounds towards minus infinity.
\<close>

definition shiftRight :: "int \<Rightarrow> int \<Rightarrow> error + int" where
  "shiftRight x k =
     (if 10000000 < \<bar>k\<bar> then Inl ShiftTooLarge
      else if k < 0 then Inr (push_bit (nat (- k)) x)
      else Inr (drop_bit (nat k) x))"

definition shiftLeft :: "int \<Rightarrow> int \<Rightarrow> error + int" where
  "shiftLeft x k =
     (if 10000000 < \<bar>k\<bar> then Inl ShiftTooLarge
      else if k < 0 then Inr (drop_bit (nat (- k)) x)
      else Inr (push_bit (nat k) x))"

section \<open>JavaScript numbers\<close>

text \<open>
  The codec's \<^verbatim>\<open>number\<close> arguments are integers here. \<^verbatim>\<open>x << k\<close> converts \<open>x\<close> to a
  signed 32-bit integer, shifts by \<open>k mod 32\<close> and reads the result as a signed
  32-bit integer again.
\<close>

definition shl32 :: "int \<Rightarrow> int \<Rightarrow> int" where
  "shl32 x k = sint (push_bit (nat (k mod 32)) (word_of_int x :: 32 word))"

definition MAX_SAFE_INTEGER :: int where
  "MAX_SAFE_INTEGER = 9007199254740991"

text \<open>
  An array made by \<^verbatim>\<open>new Array(k)\<close> has \<open>k\<close> holes: \<open>None\<close>. Reading a hole or an index
  out of range gives \<^verbatim>\<open>undefined\<close>, \<open>None\<close> as well.
\<close>

definition elemAt :: "'a option list \<Rightarrow> nat \<Rightarrow> 'a option" where
  "elemAt xs i = (if i < length xs then xs ! i else None)"

text \<open>
  \<^verbatim>\<open>xs.reduce((prev, cur) => prev.add(cur))\<close>: holes are skipped; with no element present
  and no initial value the runtime throws a \<^verbatim>\<open>TypeError\<close>.
\<close>

definition reduce_add :: "int option list \<Rightarrow> error + int" where
  "reduce_add xs =
     (case List.map_filter id xs of
        [] \<Rightarrow> Inl TypeError
      | y # ys \<Rightarrow> Inr (foldl (+) y ys))"

section \<open>VoteEncoder\<close>

definition encodeSingle :: "int \<Rightarrow> int \<Rightarrow> int \<Rightarrow> int \<Rightarrow> int \<Rightarrow> error + int" where
  "encodeSingle choice numChoices bitsPerChoice bin numBins =
     (if choice \<ge> numChoices \<or> numChoices < 2 then Inl BadParameter
      else if numBins > 0 \<and> bin \<ge> numBins then Inl BadParameter
      else if bitsPerChoice < 2 then Inl BadParameter
      else if shl32 2 (bitsPerChoice - 1) \<ge> MAX_SAFE_INTEGER then Inl BadParameter
      else shiftLeft 1 (bitsPerChoice * (bin * numChoices + choice)))"

text \<open>
  \<^verbatim>\<open>decode\<close>: \<^verbatim>\<open>new Array(numChoices)\<close> needs a length in \<open>[0, 2\<^sup>3\<^sup>2)\<close>; the loop fills the
  entries in index order. \<^verbatim>\<open>toJSNumber\<close> is taken as the identity (it is exact up to
  \<open>2\<^sup>5\<^sup>3\<close> in magnitude).
\<close>

definition decode_entry :: "int \<Rightarrow> int \<Rightarrow> int \<Rightarrow> error + int" where
  "decode_entry encoded bitsPerChoice choice =
     bindE (shiftRight encoded (choice * bitsPerChoice))
       (\<lambda>s. Inr (s AND (shl32 1 (bitsPerChoice - 1) - 1)))"

definition decode :: "int \<Rightarrow> int \<Rightarrow> int \<Rightarrow> error + int list" where
  "decode encoded numChoices bitsPerChoice =
     (if shl32 2 (bitsPerChoice - 1) \<ge> MAX_SAFE_INTEGER then Inl BadParameter
      else if numChoices < 0 \<or> 4294967296 \<le> numChoices then Inl InvalidArrayLength
      else sequenceE (map (\<lambda>choice. decode_entry encoded bitsPerChoice (int choice))
                        [0 ..< nat numChoices]))"

section \<open>Keys, signatures and commitments\<close>

record PublicKey =
  pub_n :: int
  pub_nSquared :: int
  pub_g :: int

record PrivateKey =
  priv_lambda :: int
  priv_mu :: int

record Signature =
  sig_s1 :: int
  sig_s2 :: int

record ZkpCommitment =
  zkp_a :: "int option list"
  zkp_e :: "int option list"
  zkp_z :: "int option list"

text \<open>The constructors: \<^verbatim>\<open>new PublicKey(n, g)\<close> caches \<open>n\<^sup>2\<close>; \<^verbatim>\<open>new ZkpCommitment(k)\<close>
  makes three arrays of \<open>k\<close> holes.\<close>

definition newPublicKey :: "int \<Rightarrow> int \<Rightarrow> PublicKey" where
  "newPublicKey n g = \<lparr>pub_n = n, pub_nSquared = n * n, pub_g = g\<rparr>"

definition newZkpCommitment :: "nat \<Rightarrow> ZkpCommitment" where
  "newZkpCommitment capacity =
     \<lparr>zkp_a = replicate capacity None,
      zkp_e = replicate capacity None,
      zkp_z = replicate capacity None\<rparr>"

section \<open>Paillier\<close>

subsection \<open>Sampling\<close>

text \<open>
  The samplers and hashes of \<^verbatim>\<open>BigMath\<close> are inputs of the model. A loop
  \<^verbatim>\<open>do { x = sample() } while (x >= n)\<close> reads the list of the sampler's successive
  results and returns the first one below \<open>n\<close>.
\<close>

fun drawBelow :: "int \<Rightarrow> int list \<Rightarrow> error + int" where
  "drawBelow n [] = Inl OutOfRandomness"
| "drawBelow n (x # xs) = (if x \<ge> n then drawBelow n xs else Inr x)"

text \<open>
  The two nested \<^verbatim>\<open>do ... while\<close> of \<^verbatim>\<open>generateKeyPair\<close> read the successive results of
  \<^verbatim>\<open>generateRandomPrime(bits / 2)\<close> two at a time, until the two differ and their
  product has \<open>bits\<close> bits.
\<close>

fun pickPrimes :: "int \<Rightarrow> int list \<Rightarrow> error + (int \<times> int)" where
  "pickPrimes bits (p # q # ds) =
     (if p = q then pickPrimes bits ds
      else if bitLength (p * q) \<noteq> bits then pickPrimes bits ds
      else Inr (p, q))"
| "pickPrimes bits ds = Inl OutOfRandomness"

subsection \<open>Key generation\<close>

text \<open>
  The second half of \<^verbatim>\<open>generateKeyPair\<close>, from the chosen primes on: \<open>\<lambda>\<close> by division
  through \<^verbatim>\<open>bigInt.gcd\<close>, \<open>g = n + 1\<close>, \<open>\<mu>\<close> by \<^verbatim>\<open>modPow\<close>, \<^verbatim>\<open>divide\<close> and \<^verbatim>\<open>modInv\<close>.
\<close>

definition deriveKeys :: "int \<Rightarrow> int \<Rightarrow> error + (PublicKey \<times> PrivateKey)" where
  "deriveKeys p q =
     (let n = p * q in
      bindE (big_divide ((p - 1) * (q - 1)) (gcd (p - 1) (q - 1))) (\<lambda>lambda.
      let g = n + 1 in
      bindE (modPow g lambda (n * n)) (\<lambda>u.
      bindE (big_divide (u - 1) n) (\<lambda>u2.
      bindE (modInv u2 n) (\<lambda>mu.
      Inr (newPublicKey n g, \<lparr>priv_lambda = lambda, priv_mu = mu\<rparr>))))))"

definition generateKeyPair :: "int \<Rightarrow> int list \<Rightarrow> error + (PublicKey \<times> PrivateKey)" where
  "generateKeyPair bits primes =
     (if bits smod 8 > 0 \<or> bits < 160 then Inl BadParameter
      else bindE (pickPrimes bits primes) (\<lambda>(p, q). deriveKeys p q))"

subsection \<open>Encryption and decryption\<close>

definition encryptWithR :: "int \<Rightarrow> PublicKey \<Rightarrow> int \<Rightarrow> error + (int \<times> int)" where
  "encryptWithR m pub r =
     (if m \<ge> pub_n pub then Inl BadPlaintext
      else
        bindE (big_mod (pub_n pub * m + 1) (pub_nSquared pub)) (\<lambda>gm.
        bindE (modPow r (pub_n pub) (pub_nSquared pub)) (\<lambda>rn.
        bindE (big_mod (gm * rn) (pub_nSquared pub)) (\<lambda>c.
        Inr (c, r)))))"

definition encryptWithoutR :: "int \<Rightarrow> PublicKey \<Rightarrow> int list \<Rightarrow> error + (int \<times> int)" where
  "encryptWithoutR m pub rs =
     bindE (drawBelow (pub_n pub) rs) (\<lambda>r. encryptWithR m pub r)"

definition encrypt :: "int \<Rightarrow> PublicKey \<Rightarrow> int list \<Rightarrow> error + int" where
  "encrypt m pub rs = bindE (encryptWithoutR m pub rs) (\<lambda>(c, r). Inr c)"

definition decrypt :: "int \<Rightarrow> PublicKey \<Rightarrow> PrivateKey \<Rightarrow> error + int" where
  "decrypt c pub priv =
     (if c \<ge> pub_nSquared pub then Inl BadCiphertext
      else
        bindE (modPow c (priv_lambda priv) (pub_nSquared pub)) (\<lambda>u.
        bindE (big_divide (u - 1) (pub_n pub)) (\<lambda>l.
        big_mod (l * priv_mu priv) (pub_n pub))))"

subsection \<open>Homomorphic operations\<close>

definition addEncrypted :: "int \<Rightarrow> int \<Rightarrow> PublicKey \<Rightarrow> error + int" where
  "addEncrypted em1 em2 pub = big_mod (em1 * em2) (pub_nSquared pub)"

definition addScalar :: "int \<Rightarrow> int \<Rightarrow> PublicKey \<Rightarrow> error + int" where
  "addScalar em k pub =
     bindE (modPow (pub_g pub) k (pub_nSquared pub)) (\<lambda>gk.
     big_mod (em * gk) (pub_nSquared pub))"

definition mulScalar :: "int \<Rightarrow> int \<Rightarrow> PublicKey \<Rightarrow> error + int" where
  "mulScalar em k pub = modPow em k (pub_nSquared pub)"

subsection \<open>Signatures\<close>

text \<open>\<^verbatim>\<open>hashInt\<close> stands for \<^verbatim>\<open>BigMath.bigIntHashFromBigInt\<close>.\<close>

definition createSignature ::
  "(int \<Rightarrow> int) \<Rightarrow> int \<Rightarrow> PublicKey \<Rightarrow> PrivateKey \<Rightarrow> error + Signature" where
  "createSignature hashInt m pub priv =
     (let h = hashInt m in
      bindE (modPow h (priv_lambda priv) (pub_nSquared pub)) (\<lambda>hl.
      bindE (big_divide (hl - 1) (pub_n pub)) (\<lambda>s1Num.
      let s1Den = priv_mu priv in
      bindE (big_mod (s1Num * s1Den) (pub_n pub)) (\<lambda>s1.
      bindE (modInv (pub_n pub) (priv_lambda priv)) (\<lambda>invN.
      bindE (modPow (pub_g pub) s1 (pub_n pub)) (\<lambda>test.
      bindE (modInv test (pub_n pub)) (\<lambda>invG.
      bindE (modPow (h * invG) invN (pub_n pub)) (\<lambda>s2.
      Inr \<lparr>sig_s1 = s1, sig_s2 = s2\<rparr>))))))))"

definition verifySignature ::
  "(int \<Rightarrow> int) \<Rightarrow> int \<Rightarrow> Signature \<Rightarrow> PublicKey \<Rightarrow> error + bool" where
  "verifySignature hashInt m sig pub =
     (let h = hashInt m in
      bindE (modPow (pub_g pub) (sig_s1 sig) (pub_nSquared pub)) (\<lambda>gs1.
      bindE (modPow (sig_s2 sig) (pub_n pub) (pub_nSquared pub)) (\<lambda>s2n.
      bindE (big_mod (gs1 * s2n) (pub_nSquared pub)) (\<lambda>hm.
      Inr (hm = h)))))"

subsection \<open>Zero-knowledge proof of membership\<close>

text \<open>
  Modelled from the spec: \<^verbatim>\<open>BigMath.positiveMod\<close>, whose source file is missing. The
  spec takes \<open>(\<epsilon> - \<Sigma> e\<^sub>i) mod M\<close> "as a non-negative representative in \<open>[0, M)\<close>".
\<close>

definition positiveMod :: "int \<Rightarrow> int \<Rightarrow> int" where
  "positiveMod x m = x mod m"

definition hashMod :: int where
  "hashMod = 2 ^ 256"

text \<open>
  The loop of \<^verbatim>\<open>createZkp\<close> over the valid messages, from index \<open>i\<close> on; the state is
  the commitment and \<^verbatim>\<open>mk\<close>. \<open>rnd_e i\<close> and \<open>rnd_z i\<close> are the results of
  \<^verbatim>\<open>generateRandom\<close> and \<^verbatim>\<open>generateCoprime\<close> at index \<open>i\<close>.
\<close>

fun createZkp_loop ::
  "(nat \<Rightarrow> int) \<Rightarrow> (nat \<Rightarrow> int) \<Rightarrow> int \<Rightarrow> int \<Rightarrow> int \<Rightarrow> PublicKey \<Rightarrow>
   nat \<Rightarrow> int list \<Rightarrow> ZkpCommitment \<times> int \<Rightarrow> error + (ZkpCommitment \<times> int)" where
  "createZkp_loop rnd_e rnd_z omega m c pub i [] st = Inr st"
| "createZkp_loop rnd_e rnd_z omega m c pub i (mi # vs) (commitment, mk) =
     bindE (modPow (pub_g pub) mi (pub_nSquared pub)) (\<lambda>gmi.
     bindE (modInv gmi (pub_nSquared pub)) (\<lambda>gmiInv.
     bindE (big_mod (c * gmiInv) (pub_nSquared pub)) (\<lambda>ui.
     if mi \<noteq> m then
       (let ei = rnd_e i; zi = rnd_z i in
        bindE (modPow zi (pub_n pub) (pub_nSquared pub)) (\<lambda>zin.
        bindE (modPow ui ei (pub_nSquared pub)) (\<lambda>uiei.
        bindE (modInv uiei (pub_nSquared pub)) (\<lambda>uieiInv.
        bindE (big_mod (zin * uieiInv) (pub_nSquared pub)) (\<lambda>ai.
        createZkp_loop rnd_e rnd_z omega m c pub (Suc i) vs
          (commitment\<lparr>zkp_e := (zkp_e commitment)[i := Some ei],
                       zkp_z := (zkp_z commitment)[i := Some zi],
                       zkp_a := (zkp_a commitment)[i := Some ai]\<rparr>, mk))))))
     else
       bindE (modPow omega (pub_n pub) (pub_nSquared pub)) (\<lambda>ai.
       createZkp_loop rnd_e rnd_z omega m c pub (Suc i) vs
         (commitment\<lparr>zkp_a := (zkp_a commitment)[i := Some ai]\<rparr>, int i)))))"

text \<open>
  \<open>hashArr\<close> stands for \<^verbatim>\<open>BigMath.bigIntHashFromBigIntArray\<close>, \<open>omegas\<close> for the
  successive results of \<^verbatim>\<open>generateCoprime\<close> in the loop that draws \<open>\<omega>\<close>.
\<close>

definition createZkp ::
  "(int option list \<Rightarrow> int) \<Rightarrow> int list \<Rightarrow> (nat \<Rightarrow> int) \<Rightarrow> (nat \<Rightarrow> int) \<Rightarrow>
   int \<Rightarrow> int \<Rightarrow> int \<Rightarrow> int list \<Rightarrow> PublicKey \<Rightarrow> error + ZkpCommitment" where
  "createZkp hashArr omegas rnd_e rnd_z m c r valid pub =
     bindE (drawBelow (pub_n pub) omegas) (\<lambda>omega.
     bindE (createZkp_loop rnd_e rnd_z omega m c pub 0 valid
              (newZkpCommitment (length valid), - 1)) (\<lambda>(commitment, mk).
     if mk < 0 then Inl NotInValidSet
     else
       let challenge = hashArr (zkp_a commitment) in
       bindE (reduce_add (zkp_e commitment)) (\<lambda>s.
       bindE (big_mod s hashMod) (\<lambda>esum.
       let ek = positiveMod (challenge - esum) hashMod in
       bindE (modPow r ek (pub_n pub)) (\<lambda>rek.
       bindE (big_mod (omega * rek) (pub_n pub)) (\<lambda>zk.
       Inr (commitment\<lparr>zkp_e := (zkp_e commitment)[nat mk := Some ek],
                        zkp_z := (zkp_z commitment)[nat mk := Some zk]\<rparr>)))))))"

text \<open>
  The loop of \<^verbatim>\<open>verifyZkp\<close>, from index \<open>i\<close> on. A method call on an entry that is
  \<^verbatim>\<open>undefined\<close> is a \<^verbatim>\<open>TypeError\<close>.
\<close>

fun verifyZkp_loop ::
  "int \<Rightarrow> ZkpCommitment \<Rightarrow> PublicKey \<Rightarrow> nat \<Rightarrow> int list \<Rightarrow> error + bool" where
  "verifyZkp_loop c commitment pub i [] = Inr True"
| "verifyZkp_loop c commitment pub i (mi # vs) =
     bindE (modPow (pub_g pub) mi (pub_nSquared pub)) (\<lambda>gmi.
     bindE (modInv gmi (pub_nSquared pub)) (\<lambda>gmiInv.
     bindE (big_mod (c * gmiInv) (pub_nSquared pub)) (\<lambda>ui.
     case elemAt (zkp_z commitment) i of None \<Rightarrow> Inl TypeError | Some zi \<Rightarrow>
     bindE (modPow zi (pub_n pub) (pub_nSquared pub)) (\<lambda>zin.
     case elemAt (zkp_e commitment) i of None \<Rightarrow> Inl TypeError | Some ei \<Rightarrow>
     bindE (modPow ui ei (pub_nSquared pub)) (\<lambda>uiei.
     case elemAt (zkp_a commitment) i of None \<Rightarrow> Inl TypeError | Some ai \<Rightarrow>
     bindE (big_mod (ai * uiei) (pub_nSquared pub)) (\<lambda>aiuiei.
     if zin \<noteq> aiuiei then Inr False
     else verifyZkp_loop c commitment pub (Suc i) vs))))))"

definition verifyZkp ::
  "(int option list \<Rightarrow> int) \<Rightarrow> int \<Rightarrow> int list \<Rightarrow> ZkpCommitment \<Rightarrow> PublicKey \<Rightarrow>
   error + bool" where
  "verifyZkp hashArr c valid commitment pub =
     (if length valid * 3 \<noteq>
         length (zkp_a commitment) + length (zkp_e commitment) + length (zkp_z commitment)
      then Inl MalformedCommitment
      else
        let challenger = hashArr (zkp_a commitment) in
        bindE (reduce_add (zkp_e commitment)) (\<lambda>s.
        bindE (big_mod s hashMod) (\<lambda>esum.
        if esum \<noteq> challenger then Inr False
        else verifyZkp_loop c commitment pub 0 valid)))"

section \<open>Primes and valid keys\<close>

text \<open>
  What the spec asks of \<^verbatim>\<open>generateRandomPrime\<close>: its results are primes.
\<close>

definition isPrime :: "int \<Rightarrow> bool" where
  "isPrime p \<longleftrightarrow> 1 < p \<and> (\<forall>d\<in>{2..<p}. \<not> d dvd p)"

text \<open>Carmichael's function of \<open>n = p q\<close>, as \<^verbatim>\<open>generateKeyPair\<close> computes it.\<close>

definition carmichael :: "int \<Rightarrow> int \<Rightarrow> int" where
  "carmichael p q = ((p - 1) * (q - 1)) div gcd (p - 1) (q - 1)"

text \<open>
  A valid key pair in the sense of the spec's data model: the keys derived from two
  distinct primes \<open>p\<close> and \<open>q\<close> with \<open>gcd (p q) ((p - 1) (q - 1)) = 1\<close>.
\<close>

definition validKeyPair :: "int \<Rightarrow> int \<Rightarrow> PublicKey \<Rightarrow> PrivateKey \<Rightarrow> bool" where
  "validKeyPair p q pub priv \<longleftrightarrow>
     isPrime p \<and> isPrime q \<and> p \<noteq> q \<and> gcd (p * q) ((p - 1) * (q - 1)) = 1 \<and>
     deriveKeys p q = Inr (pub, priv)"

text \<open>
  Fragments of the prover's and the verifier's iteration over the valid set, named for the
  proofs: the value \<open>u\<^sub>i\<close> that both compute, the simulated \<open>a\<^sub>i\<close> of the prover for \<open>m\<^sub>i \<noteq> m\<close>, the check of
  the verifier at one index, and the sum that \<^verbatim>\<open>reduce\<close> computes.
\<close>

definition zkp_u :: "int \<Rightarrow> PublicKey \<Rightarrow> int \<Rightarrow> error + int" where
  "zkp_u c pub mi =
     bindE (modPow (pub_g pub) mi (pub_nSquared pub)) (\<lambda>gmi.
     bindE (modInv gmi (pub_nSquared pub)) (\<lambda>gmiInv.
     big_mod (c * gmiInv) (pub_nSquared pub)))"

definition simulateClause :: "int \<Rightarrow> PublicKey \<Rightarrow> int \<Rightarrow> int \<Rightarrow> int \<Rightarrow> error + int" where
  "simulateClause c pub mi ei zi =
     bindE (zkp_u c pub mi) (\<lambda>ui.
     bindE (modPow zi (pub_n pub) (pub_nSquared pub)) (\<lambda>zin.
     bindE (modPow ui ei (pub_nSquared pub)) (\<lambda>uiei.
     bindE (modInv uiei (pub_nSquared pub)) (\<lambda>uieiInv.
     big_mod (zin * uieiInv) (pub_nSquared pub)))))"

definition verifyClause :: "int \<Rightarrow> PublicKey \<Rightarrow> int \<Rightarrow> int \<Rightarrow> int \<Rightarrow> int \<Rightarrow> error + bool" where
  "verifyClause c pub mi zi ei ai =
     bindE (zkp_u c pub mi) (\<lambda>ui.
     bindE (modPow zi (pub_n pub) (pub_nSquared pub)) (\<lambda>zin.
     bindE (modPow ui ei (pub_nSquared pub)) (\<lambda>uiei.
     bindE (big_mod (ai * uiei) (pub_nSquared pub)) (\<lambda>aiuiei.
     Inr (zin = aiuiei)))))"

definition sumSome :: "int option list \<Rightarrow> int" where
  "sumSome xs = sum_list (List.map_filter id xs)"

text \<open>
  A certificate for \<open>a\<^sup>E mod p\<close>: the steps of square-and-multiply from the most
  significant bit of \<open>E\<close> on, each with the quotient to subtract, so that checking it
  takes multiplications and subtractions only. It is used to prove that concrete
  numbers are prime.
\<close>

fun certPow :: "int \<Rightarrow> int \<Rightarrow> int \<Rightarrow> int \<Rightarrow> (bool \<times> int) list \<Rightarrow> int \<times> int" where
  "certPow p a acc ex [] = (acc, ex)"
| "certPow p a acc ex ((mul, qh) # hs) =
     (if mul then certPow p a (acc * a - qh * p) (ex + 1) hs
      else certPow p a (acc * acc - qh * p) (2 * ex) hs)"

section \<open>Properties of the library operations\<close>

declare modInv_loop.simps [simp del] modPow_loop.simps [simp del]

lemma bindE_Inl [simp]: "bindE (Inl e) f = Inl e"
  by (simp add: bindE_def)

lemma bindE_Inr [simp]: "bindE (Inr v) f = f v"
  by (simp add: bindE_def)

lemma smod_nonneg: "0 \<le> a \<Longrightarrow> 0 < b \<Longrightarrow> a smod b = a mod (b::int)"
  by (cases "a = 0") (simp_all add: signed_modulo_int_def sgn_if)

lemma sdiv_nonneg: "0 \<le> a \<Longrightarrow> 0 < b \<Longrightarrow> a sdiv b = a div (b::int)"
  by (cases "a = 0") (simp_all add: signed_divide_int_def sgn_if)

lemma big_mod_nonneg: "0 \<le> a \<Longrightarrow> 0 < b \<Longrightarrow> big_mod a b = Inr (a mod b)"
  by (simp add: big_mod_def smod_nonneg)

lemma big_divide_nonneg: "0 \<le> a \<Longrightarrow> 0 < b \<Longrightarrow> big_divide a b = Inr (a div b)"
  by (simp add: big_divide_def sdiv_nonneg)

lemma modPow_loop_range:
  "0 < m \<Longrightarrow> 0 \<le> r \<Longrightarrow> r < m \<Longrightarrow> 0 \<le> base \<Longrightarrow>
   0 \<le> modPow_loop r base ex m \<and> modPow_loop r base ex m < m"
proof (induction r base ex m rule: modPow_loop.induct)
  case (1 r base ex m)
  show ?case
  proof (cases "0 < ex \<and> base \<noteq> 0")
    case True
    let ?r' = "if odd ex then (r * base) smod m else r"
    let ?b' = "(base * base) smod m"
    have r': "0 \<le> ?r' \<and> ?r' < m"
      using 1(2-5) by (simp add: smod_nonneg)
    have b': "0 \<le> ?b'"
      using 1(2,5) by (simp add: smod_nonneg)
    have "0 \<le> modPow_loop ?r' ?b' (ex sdiv 2) m \<and> modPow_loop ?r' ?b' (ex sdiv 2) m < m"
      using 1(1) True 1(2) r' b' by blast
    then show ?thesis
      using True by (subst (1 2) modPow_loop.simps) simp
  next
    case False
    then show ?thesis
      using 1(2-4) by (subst (1 2) modPow_loop.simps) auto
  qed
qed

lemma modPow_range:
  assumes "1 < m" "0 \<le> b" "0 \<le> ex"
  shows "\<exists>x. modPow b ex m = Inr x \<and> 0 \<le> x \<and> x < m"
proof -
  have "0 \<le> b smod m" using assms by (simp add: smod_nonneg)
  then have "0 \<le> modPow_loop 1 (b smod m) ex m \<and> modPow_loop 1 (b smod m) ex m < m"
    using assms by (intro modPow_loop_range) simp_all
  then show ?thesis using assms by (simp add: modPow_def Let_def)
qed

lemma modInv_loop_inv:
  assumes "0 < n"
  shows "0 \<le> newR \<Longrightarrow> newR < r \<Longrightarrow> n dvd (t * a - r) \<Longrightarrow> n dvd (newT * a - newR) \<Longrightarrow>
         gcd r newR = gcd n a \<Longrightarrow> r * \<bar>newT\<bar> + newR * \<bar>t\<bar> \<le> n \<Longrightarrow> r * \<bar>t\<bar> \<le> n \<Longrightarrow>
         modInv_loop t newT r newR = (t', r') \<Longrightarrow>
         r' = gcd n a \<and> n dvd (t' * a - r') \<and> r' * \<bar>t'\<bar> \<le> n"
proof (induction t newT r newR rule: modInv_loop.induct)
  case (1 t newT r newR)
  show ?case
  proof (cases "newR = 0")
    case True
    then have "(t', r') = (t, r)" using 1(9) by (subst (asm) modInv_loop.simps) simp
    moreover have "gcd r newR = r" using True 1(3) by simp
    ultimately show ?thesis using 1(4,6,8) by simp
  next
    case False
    then have pos: "0 < newR" using 1(2) by simp
    define q where "q = r sdiv newR"
    have q: "q = r div newR" using pos 1(3) by (simp add: q_def sdiv_nonneg)
    have q0: "0 \<le> q" using pos 1(3) by (simp add: q pos_imp_zdiv_nonneg_iff)
    have rem: "r - q * newR = r mod newR" 
      unfolding q by (simp add: minus_div_mult_eq_mod)
    have step: "modInv_loop newT (t - q * newT) newR (r - q * newR) = (t', r')"
      using 1(9) False by (subst (asm) modInv_loop.simps) (simp add: q_def Let_def)
    have a1: "0 \<le> r - q * newR" using pos by (simp add: rem)
    have a2: "r - q * newR < newR" using pos by (simp add: rem)
    have a3: "n dvd (newT * a - newR)" by (rule 1(5))
    have d: "n dvd ((t * a - r) - q * (newT * a - newR))"
      using 1(4,5) by (simp add: dvd_diff)
    have eq: "(t - q * newT) * a - (r - q * newR) = (t * a - r) - q * (newT * a - newR)"
      by (simp add: algebra_simps)
    have a4: "n dvd ((t - q * newT) * a - (r - q * newR))"
      by (subst eq) (rule d)
    have a5: "gcd newR (r - q * newR) = gcd n a"
      using 1(6) by (simp add: rem gcd.commute gcd_red_int [symmetric])
    have "\<bar>t - q * newT\<bar> \<le> \<bar>t\<bar> + q * \<bar>newT\<bar>"
      using abs_triangle_ineq4 [of t "q * newT"] q0 by (simp add: abs_mult)
    then have "newR * \<bar>t - q * newT\<bar> \<le> newR * (\<bar>t\<bar> + q * \<bar>newT\<bar>)"
      using pos by (intro mult_left_mono) simp_all
    then have "newR * \<bar>t - q * newT\<bar> + (r - q * newR) * \<bar>newT\<bar> \<le> r * \<bar>newT\<bar> + newR * \<bar>t\<bar>"
      by (simp add: algebra_simps)
    then have a6: "newR * \<bar>t - q * newT\<bar> + (r - q * newR) * \<bar>newT\<bar> \<le> n"
      using 1(7) by simp
    have "newR * \<bar>newT\<bar> \<le> r * \<bar>newT\<bar>"
      using 1(3) by (intro mult_right_mono) simp_all
    moreover have "0 \<le> newR * \<bar>t\<bar>" using pos by simp
    ultimately have a7: "newR * \<bar>newT\<bar> \<le> n" using 1(7) by linarith
    show ?thesis
      using 1(1) [OF False q_def a1 a2 a3 a4 a5 a6 a7 step] .
  qed
qed

lemma modInv_loop_reduce:
  assumes "0 < n" "n < a"
  shows "modInv_loop 0 1 n a = modInv_loop 0 1 n (a mod n)"
proof -
  have z: "n sdiv a = 0" using assms by (simp add: sdiv_nonneg)
  have one: "modInv_loop 0 1 n a = modInv_loop 1 0 a n"
    using assms by (subst modInv_loop.simps) (simp add: z)
  have d: "a sdiv n = a div n" using assms by (simp add: sdiv_nonneg)
  have two: "modInv_loop 1 0 a n = modInv_loop 0 1 n (a mod n)"
    using assms by (subst modInv_loop.simps) (simp add: d minus_div_mult_eq_mod)
  from one two show ?thesis by simp
qed

lemma modInv_correct:
  assumes n: "1 < n" and a: "0 \<le> a" and cop: "coprime a n"
  shows "\<exists>t. modInv a n = Inr t \<and> 0 \<le> t \<and> t < n \<and> (a * t) mod n = 1"
proof -
  have ne: "a \<noteq> n" using cop n by auto
  define b where "b = a mod n"
  have b: "0 \<le> b" "b < n" using n by (simp_all add: b_def)
  have copb: "coprime b n" using cop n by (simp add: b_def coprime_mod_left_iff)
  have loop: "modInv_loop 0 1 n a = modInv_loop 0 1 n b"
  proof (cases "a < n")
    case True
    then show ?thesis using a by (simp add: b_def)
  next
    case False
    then have "n < a" using ne by simp
    then show ?thesis using a n modInv_loop_reduce [of n a] by (simp add: b_def)
  qed
  obtain t r where tr: "modInv_loop 0 1 n b = (t, r)" by fastforce
  have inv: "r = gcd n b \<and> n dvd (t * b - r) \<and> r * \<bar>t\<bar> \<le> n"
    using n b by (intro modInv_loop_inv [OF _ _ _ _ _ _ _ _ tr]) simp_all
  have r1: "r = 1" using inv copb by (simp add: coprime_commute)
  have bound: "\<bar>t\<bar> \<le> n" using inv r1 by simp
  have dv: "n dvd (t * b - 1)" using inv r1 by simp
  define t' where "t' = (if t < 0 then t + n else t)"
  have res: "modInv a n = Inr t'"
    using a by (simp add: modInv_def loop tr r1 t'_def Let_def)
  have "n dvd (t' * b - 1)"
  proof (cases "t < 0")
    case True
    have eq: "t' * b - 1 = (t * b - 1) + n * b" using True by (simp add: t'_def algebra_simps)
    have "n dvd (t * b - 1) + n * b" using dv by (intro dvd_add) simp_all
    then show ?thesis by (subst eq)
  next
    case False
    then show ?thesis using dv by (simp add: t'_def)
  qed
  then have "(t' * b) mod n = 1 mod n"
    by (simp add: mod_eq_dvd_iff)
  moreover have "(t' * b) mod n = (a * t') mod n"
    by (simp add: b_def mod_mult_right_eq mult.commute)
  ultimately have m1: "(a * t') mod n = 1"
    using n by simp
  have t0: "0 \<le> t'" using bound by (auto simp: t'_def)
  have tn: "t' \<le> n" using bound by (auto simp: t'_def)
  have "t' \<noteq> n" using m1 by auto
  then show ?thesis using res t0 tn m1 by auto
qed


lemma modPow_loop_mod:
  "0 < m \<Longrightarrow> 0 \<le> r \<Longrightarrow> 0 \<le> base \<Longrightarrow> 0 \<le> ex \<Longrightarrow>
   modPow_loop r base ex m mod m = (r * base ^ nat ex) mod m"
proof (induction r base ex m rule: modPow_loop.induct)
  case (1 r base ex m)
  show ?case
  proof (cases "0 < ex")
    case False
    then have "ex = 0" using 1(5) by simp
    then show ?thesis by (subst modPow_loop.simps) simp
  next
    case pos: True
    show ?thesis
    proof (cases "base = 0")
      case True
      then show ?thesis using pos by (subst modPow_loop.simps) (simp add: zero_power)
    next
      case False
      let ?r' = "if odd ex then (r * base) smod m else r"
      let ?b' = "(base * base) smod m"
      define k where "k = nat (ex div 2)"
      have half: "ex sdiv 2 = ex div 2" using pos by (simp add: sdiv_nonneg)
      have unf: "modPow_loop r base ex m = modPow_loop ?r' ?b' (ex div 2) m"
        using pos False by (subst modPow_loop.simps) (simp add: half)
      have r': "0 \<le> ?r'" using 1(2-4) by (simp add: smod_nonneg)
      have b': "0 \<le> ?b'" using 1(2,4) by (simp add: smod_nonneg)
      have e': "0 \<le> ex div 2" using pos by simp
      have ih: "modPow_loop ?r' ?b' (ex div 2) m mod m = (?r' * ?b' ^ k) mod m"
        using 1(1) [OF pos False 1(2) r' b'] e' by (simp add: half k_def)
      have bm: "?b' = (base * base) mod m" using 1(2,4) by (simp add: smod_nonneg)
      have "?b' ^ k mod m = (base * base) ^ k mod m"
        unfolding bm by (rule power_mod)
      also have "(base * base) ^ k = base ^ (2 * k)"
        by (simp add: power_mult power2_eq_square)
      finally have bp: "?b' ^ k mod m = base ^ (2 * k) mod m" .
      have "(?r' * ?b' ^ k) mod m = (r * base ^ nat ex) mod m"
      proof (cases "odd ex")
        case True
        then have ne: "nat ex = Suc (2 * k)" using pos unfolding k_def
          by (auto elim!: oddE simp: nat_add_distrib nat_mult_distrib)
        have rm: "?r' mod m = (r * base) mod m"
          using True 1(2-4) by (simp add: smod_nonneg)
        have "(?r' * ?b' ^ k) mod m = ((r * base) * base ^ (2 * k)) mod m"
          by (rule mod_mult_cong [OF rm bp])
        then show ?thesis by (simp add: ne mult.assoc)
      next
        case False
        then have ne: "nat ex = 2 * k" using pos unfolding k_def
          by (auto elim!: evenE simp: nat_mult_distrib)
        have rm: "?r' mod m = r mod m" using False by simp
        have "(?r' * ?b' ^ k) mod m = (r * base ^ (2 * k)) mod m"
          by (rule mod_mult_cong [OF rm bp])
        then show ?thesis by (simp add: ne)
      qed
      then show ?thesis using ih unf by simp
    qed
  qed
qed

lemma modPow_correct:
  assumes "1 < m" "0 \<le> b" "0 \<le> ex"
  shows "modPow b ex m = Inr (b ^ nat ex mod m)"
proof -
  let ?x = "modPow_loop 1 (b smod m) ex m"
  have bm: "b smod m = b mod m" using assms by (simp add: smod_nonneg)
  have b0: "0 \<le> b mod m" using assms by simp
  have rng: "0 \<le> ?x \<and> ?x < m"
    unfolding bm using assms b0 by (intro modPow_loop_range) simp_all
  have "?x mod m = (1 * (b mod m) ^ nat ex) mod m"
    unfolding bm using assms b0 by (intro modPow_loop_mod) simp_all
  then have "?x mod m = b ^ nat ex mod m" by (simp add: power_mod)
  then have "?x = b ^ nat ex mod m" using rng by simp
  then show ?thesis using assms by (simp add: modPow_def Let_def)
qed

lemma modPow_coprime:
  assumes "1 < m" "0 \<le> b" "coprime b m"
  shows "\<exists>x. modPow b ex m = Inr x \<and> 0 \<le> x \<and> x < m \<and> coprime x m"
proof (cases "0 \<le> ex")
  case True
  have "coprime (b ^ nat ex mod m) m"
    using assms by (simp add: coprime_mod_left_iff)
  then show ?thesis using assms True by (simp add: modPow_correct)
next
  case False
  have bm: "b smod m = b mod m" using assms by (simp add: smod_nonneg)
  have "0 \<le> b mod m" "coprime (b mod m) m" using assms by (simp_all add: coprime_mod_left_iff)
  then obtain t where t: "modInv (b mod m) m = Inr t" "0 \<le> t" "t < m" "((b mod m) * t) mod m = 1"
    using modInv_correct [OF assms(1), of "b mod m"] by blast
  have "coprime (((b mod m) * t) mod m) m" using t(4) by simp
  then have "coprime ((b mod m) * t) m" using assms(1) by (simp add: coprime_mod_left_iff)
  then have ct: "coprime t m" by simp
  let ?x = "modPow_loop 1 t (- ex) m"
  have rng: "0 \<le> ?x \<and> ?x < m"
    using assms t by (intro modPow_loop_range) simp_all
  have "?x mod m = (1 * t ^ nat (- ex)) mod m"
    using assms t False by (intro modPow_loop_mod) simp_all
  then have "?x = t ^ nat (- ex) mod m" using rng by simp
  then have "coprime ?x m" using ct assms(1) by (simp add: coprime_mod_left_iff)
  then show ?thesis
    using False assms rng by (simp add: modPow_def Let_def bm t(1))
qed

lemma coprime_succ_square:
  assumes "1 < (n::int)"
  shows "coprime (n + 1) (n * n)"
proof -
  have "coprime (n + 1) n" by (simp add: coprime_commute)
  then show ?thesis by simp
qed

subsection \<open>Which errors the operations raise\<close>

lemma drawBelow_Inr:
  "\<exists>x\<in>set xs. x < n \<Longrightarrow> \<exists>r. drawBelow n xs = Inr r \<and> r \<in> set xs \<and> r < n"
  by (induction xs) auto

lemma drawBelow_cases:
  "drawBelow n xs = Inl OutOfRandomness \<or> (\<exists>r. drawBelow n xs = Inr r \<and> r \<in> set xs \<and> r < n)"
  by (induction xs) auto

lemma modPow_nonneg_exponent:
  "m \<noteq> 0 \<Longrightarrow> 0 \<le> ex \<Longrightarrow> \<exists>x. modPow b ex m = Inr x"
  by (simp add: modPow_def Let_def)

lemma newPublicKey_simps [simp]:
  "pub_n (newPublicKey n g) = n"
  "pub_nSquared (newPublicKey n g) = n * n"
  "pub_g (newPublicKey n g) = g"
  by (simp_all add: newPublicKey_def)

lemma modInv_error: "modInv a n = Inl e \<Longrightarrow> e = NotCoprime"
  by (auto simp: modInv_def Let_def split: prod.splits if_splits)

lemma modPow_error: "modPow b ex m = Inl e \<Longrightarrow> e = ZeroModulus \<or> e = NotCoprime"
  by (auto simp: modPow_def Let_def bindE_def split: if_splits sum.splits dest: modInv_error)

lemma big_mod_error: "big_mod a b = Inl e \<Longrightarrow> e = DivideByZero"
  by (auto simp: big_mod_def split: if_splits)

lemma reduce_add_error: "reduce_add xs = Inl e \<Longrightarrow> e = TypeError"
  by (auto simp: reduce_add_def split: list.splits)

lemma bindE_eq_Inl:
  "bindE x f = Inl e \<longleftrightarrow> x = Inl e \<or> (\<exists>v. x = Inr v \<and> f v = Inl e)"
  by (cases x) simp_all

lemma library_not_Malformed [simp]:
  "modPow b ex m \<noteq> Inl MalformedCommitment"
  "modInv a n \<noteq> Inl MalformedCommitment"
  "big_mod x y \<noteq> Inl MalformedCommitment"
  "reduce_add xs \<noteq> Inl MalformedCommitment"
  using modPow_error modInv_error big_mod_error reduce_add_error by blast+

lemma library_not_NotInValidSet [simp]:
  "modPow b ex m \<noteq> Inl NotInValidSet"
  "modInv a n \<noteq> Inl NotInValidSet"
  "big_mod x y \<noteq> Inl NotInValidSet"
  "reduce_add xs \<noteq> Inl NotInValidSet"
  using modPow_error modInv_error big_mod_error reduce_add_error by blast+

lemma verifyZkp_loop_error:
  "verifyZkp_loop c commitment pub i vs \<noteq> Inl MalformedCommitment"
proof (induction vs arbitrary: i)
  case Nil
  then show ?case by simp
next
  case (Cons mi vs)
  show ?case
    by (auto simp: bindE_eq_Inl Cons.IH split: option.splits if_splits)
qed

section \<open>Primes and Fermat's little theorem\<close>

lemma isPrime_gt1: "isPrime p \<Longrightarrow> 1 < p"
  by (simp add: isPrime_def)

lemma isPrime_divisor:
  assumes "isPrime p" "d dvd p" "0 < d"
  shows "d = 1 \<or> d = p"
proof -
  have "d \<le> p" using assms by (auto simp: isPrime_def intro: zdvd_imp_le)
  then show ?thesis using assms by (auto simp: isPrime_def) 
qed

lemma isPrime_coprime:
  assumes "isPrime p" "\<not> p dvd a"
  shows "coprime p a"
proof -
  have "gcd p a dvd p" "0 \<le> gcd p a" by simp_all
  moreover have "gcd p a \<noteq> 0" using assms(1) by (auto simp: isPrime_def)
  ultimately have "gcd p a = 1 \<or> gcd p a = p"
    using isPrime_divisor [OF assms(1), of "gcd p a"] by auto
  moreover have "gcd p a \<noteq> p"
  proof
    assume "gcd p a = p"
    then have "p dvd a" by (metis gcd_dvd2)
    then show False using assms(2) by simp
  qed
  ultimately show ?thesis by (simp add: coprime_iff_gcd_eq_1)
qed

lemma isPrime_dvd_mult:
  assumes "isPrime p" "p dvd a * b"
  shows "p dvd a \<or> p dvd b"
proof (cases "p dvd a")
  case False
  have "coprime p a" by (rule isPrime_coprime [OF assms(1) False])
  then show ?thesis using assms(2) by (simp add: coprime_dvd_mult_right_iff)
qed simp

lemma isPrime_dvd_power:
  assumes "isPrime p" "p dvd a ^ k"
  shows "p dvd a"
  using assms(2)
proof (induction k)
  case 0
  then show ?case using assms(1) by (auto simp: isPrime_def)
next
  case (Suc k)
  then show ?case using isPrime_dvd_mult [OF assms(1), of a "a ^ k"] by auto
qed

lemma isPrime_dvd_choose:
  assumes "isPrime (int p)" "0 < k" "k < p"
  shows "int p dvd int (p choose k)"
proof -
  have "k * (p choose k) = p * ((p - 1) choose (k - 1))"
    using assms(2) by (rule times_binomial_minus1_eq)
  then have "int k * int (p choose k) = int p * int ((p - 1) choose (k - 1))"
    by (metis of_nat_mult)
  then have "int p dvd int k * int (p choose k)" by simp
  then have "int p dvd int k \<or> int p dvd int (p choose k)"
    using assms(1) by (rule isPrime_dvd_mult [rotated])
  moreover have "\<not> int p dvd int k"
    using assms(2,3) by (auto dest: zdvd_imp_le)
  ultimately show ?thesis by simp
qed

lemma freshman:
  fixes a :: int
  assumes "isPrime (int p)"
  shows "int p dvd (a + 1) ^ p - a ^ p - 1"
proof -
  have p: "0 < p" using assms by (auto simp: isPrime_def)
  then obtain p' where p': "p = Suc p'" by (cases p) auto
  let ?f = "\<lambda>k. of_nat (p choose k) * a ^ k :: int"
  have "(a + 1) ^ p = (\<Sum>k\<le>p. ?f k)"
    using binomial_ring [of a 1 p] by simp
  also have "\<dots> = (\<Sum>k\<le>p'. ?f k) + ?f p"
    by (simp add: p')
  also have "(\<Sum>k\<le>p'. ?f k) = (\<Sum>k\<in>{0..<Suc p'}. ?f k)"
    by (simp add: atLeast0LessThan lessThan_Suc_atMost)
  also have "\<dots> = ?f 0 + (\<Sum>k\<in>{Suc 0..<Suc p'}. ?f k)"
    by (rule sum.atLeast_Suc_lessThan) simp
  finally have "(a + 1) ^ p - a ^ p - 1 = (\<Sum>k\<in>{Suc 0..<p}. ?f k)"
    by (simp add: p')
  moreover have "int p dvd (\<Sum>k\<in>{Suc 0..<p}. ?f k)"
  proof (rule dvd_sum)
    fix k assume "k \<in> {Suc 0..<p}"
    then have "int p dvd int (p choose k)"
      using isPrime_dvd_choose [OF assms, of k] by simp
    then show "int p dvd ?f k" by simp
  qed
  ultimately show ?thesis by simp
qed

lemma fermat_nat:
  assumes "isPrime (int p)"
  shows "int p dvd (int a) ^ p - int a"
proof (induction a)
  case 0
  have "0 < p" using assms by (auto simp: isPrime_def)
  then show ?case by (simp add: power_0_left)
next
  case (Suc a)
  have eq: "(int (Suc a)) ^ p - int (Suc a) =
        ((int a + 1) ^ p - (int a) ^ p - 1) + ((int a) ^ p - int a)"
    by (simp add: add.commute)
  have "int p dvd ((int a + 1) ^ p - (int a) ^ p - 1) + ((int a) ^ p - int a)"
    using freshman [OF assms, of "int a"] Suc.IH by (rule dvd_add)
  then show ?case by (subst eq)
qed

lemma fermat_little:
  assumes "isPrime p" "\<not> p dvd a"
  shows "a ^ nat (p - 1) mod p = 1"
proof -
  have p1: "1 < p" using assms(1) by (rule isPrime_gt1)
  define P where "P = nat p"
  have P: "int P = p" using p1 by (simp add: P_def)
  define b where "b = nat (a mod p)"
  have b: "int b = a mod p" using p1 by (simp add: b_def)
  have "p dvd (a mod p) ^ P - a mod p"
    using fermat_nat [of P b] assms(1) by (simp add: P b)
  then have "((a mod p) ^ P) mod p = (a mod p) mod p"
    by (rule mod_eq_dvd_iff [THEN iffD2])
  then have "(a ^ P) mod p = a mod p"
    by (simp add: power_mod)
  then have "p dvd a ^ P - a"
    by (rule mod_eq_dvd_iff [THEN iffD1])
  moreover have "a ^ P - a = a * (a ^ nat (p - 1) - 1)"
  proof -
    have "P = Suc (nat (p - 1))" using p1 by (simp add: P_def)
    then show ?thesis by (simp add: algebra_simps)
  qed
  ultimately have "p dvd a * (a ^ nat (p - 1) - 1)" by simp
  then have "p dvd a ^ nat (p - 1) - 1"
    using isPrime_dvd_mult [OF assms(1)] assms(2) by blast
  then have "a ^ nat (p - 1) mod p = 1 mod p"
    by (rule mod_eq_dvd_iff [THEN iffD2])
  then show ?thesis using p1 by simp
qed

section \<open>The algebra of Paillier encryption\<close>

lemma one_plus_power:
  fixes n a :: int
  shows "(n * n) dvd (1 + n * a) ^ k - (1 + int k * n * a)"
proof (induction k)
  case 0
  then show ?case by simp
next
  case (Suc k)
  have eq: "(1 + n * a) ^ Suc k - (1 + int (Suc k) * n * a) =
        (1 + n * a) * ((1 + n * a) ^ k - (1 + int k * n * a)) + (n * n) * (int k * a * a)"
    by (simp add: algebra_simps)
  have A: "(n * n) dvd (1 + n * a) * ((1 + n * a) ^ k - (1 + int k * n * a))"
    by (rule dvd_mult) (rule Suc.IH)
  have B: "(n * n) dvd (n * n) * (int k * a * a)" by (rule dvd_triv_left)
  show ?case by (subst eq) (rule dvd_add [OF A B])
qed

lemma power_cong_square:
  fixes x y :: int
  assumes "int N dvd x - y"
  shows "(int N * int N) dvd x ^ N - y ^ N"
proof -
  let ?S = "\<Sum>i<N. y ^ (N - Suc i) * x ^ i"
  have fact: "x ^ N - y ^ N = (x - y) * ?S" by (rule power_diff_sumr2)
  have "?S = (\<Sum>i<N. y ^ (N - Suc i) * (x ^ i - y ^ i) + y ^ (N - Suc i) * y ^ i)"
    by (rule sum.cong) (simp_all add: right_diff_distrib)
  then have split: "?S = (\<Sum>i<N. y ^ (N - Suc i) * (x ^ i - y ^ i)) + (\<Sum>i<N. y ^ (N - Suc i) * y ^ i)"
    by (simp only: sum.distrib)
  have xy: "x mod int N = y mod int N"
    using assms by (rule mod_eq_dvd_iff [THEN iffD2])
  have d1: "int N dvd (\<Sum>i<N. y ^ (N - Suc i) * (x ^ i - y ^ i))"
  proof (rule dvd_sum)
    fix i
    have "x ^ i mod int N = (x mod int N) ^ i mod int N" by (rule power_mod [symmetric])
    also have "\<dots> = (y mod int N) ^ i mod int N" by (simp only: xy)
    also have "\<dots> = y ^ i mod int N" by (rule power_mod)
    finally have "x ^ i mod int N = y ^ i mod int N" .
    then have "int N dvd x ^ i - y ^ i" by (rule mod_eq_dvd_iff [THEN iffD1])
    then show "int N dvd y ^ (N - Suc i) * (x ^ i - y ^ i)" by simp
  qed
  have "(\<Sum>i<N. y ^ (N - Suc i) * y ^ i) = (\<Sum>i<N. y ^ (N - 1))"
  proof (rule sum.cong)
    fix i assume "i \<in> {..<N}"
    then have "N - Suc i + i = N - 1" by auto
    then show "y ^ (N - Suc i) * y ^ i = y ^ (N - 1)"
      by (simp add: power_add [symmetric])
  qed simp
  then have d2: "int N dvd (\<Sum>i<N. y ^ (N - Suc i) * y ^ i)" by simp
  have "int N dvd ?S" by (subst split) (intro dvd_add d1 d2)
  then have "(int N * int N) dvd (x - y) * ?S" using assms by (rule mult_dvd_mono [rotated])
  then show ?thesis by (subst fact)
qed

lemma mod_square_form:
  fixes n a :: int
  assumes "1 < n"
  shows "(1 + n * a) mod (n * n) = 1 + n * (a mod n)"
proof -
  have "(1 + n * a) mod (n * n) = (1 + (n * a) mod (n * n)) mod (n * n)"
    by (rule mod_add_right_eq [symmetric])
  also have "(n * a) mod (n * n) = n * (a mod n)"
    by (rule mult_mod_right [symmetric])
  finally have eq: "(1 + n * a) mod (n * n) = (1 + n * (a mod n)) mod (n * n)" .
  have "a mod n \<le> n - 1" using assms by (simp add: zle_diff1_eq)
  then have "n * (a mod n) \<le> n * (n - 1)" using assms by (intro mult_left_mono) simp_all
  then have "1 + n * (a mod n) < n * n" using assms by (simp add: algebra_simps)
  moreover have "0 \<le> 1 + n * (a mod n)" using assms by simp
  ultimately show ?thesis using eq by simp
qed


lemma isPrime_distinct_coprime:
  assumes "isPrime p" "isPrime q" "p \<noteq> q"
  shows "coprime p q"
proof (rule isPrime_coprime [OF assms(1)])
  show "\<not> p dvd q"
  proof
    assume "p dvd q"
    then have "p = 1 \<or> p = q"
      using isPrime_divisor [OF assms(2), of p] isPrime_gt1 [OF assms(1)] by simp
    then show False using assms(3) isPrime_gt1 [OF assms(1)] by auto
  qed
qed

lemma carmichael_factor:
  assumes "1 < p" "1 < q"
  shows "carmichael p q = (p - 1) * ((q - 1) div gcd (p - 1) (q - 1))"
    and "carmichael p q = (q - 1) * ((p - 1) div gcd (p - 1) (q - 1))"
    and "0 \<le> (q - 1) div gcd (p - 1) (q - 1)"
    and "0 \<le> (p - 1) div gcd (p - 1) (q - 1)"
    and "carmichael p q * gcd (p - 1) (q - 1) = (p - 1) * (q - 1)"
proof -
  let ?g = "gcd (p - 1) (q - 1)"
  have g: "0 < ?g" using assms by (simp add: gcd_pos_int)
  show "carmichael p q = (p - 1) * ((q - 1) div ?g)"
    unfolding carmichael_def by (simp add: div_mult_swap)
  have "carmichael p q = ((q - 1) * (p - 1)) div ?g"
    unfolding carmichael_def by (simp only: mult.commute)
  also have "\<dots> = (q - 1) * ((p - 1) div ?g)"
    by (rule div_mult_swap [symmetric]) simp
  finally show "carmichael p q = (q - 1) * ((p - 1) div ?g)" .
  show "0 \<le> (q - 1) div ?g" using g assms by (simp add: pos_imp_zdiv_nonneg_iff)
  show "0 \<le> (p - 1) div ?g" using g assms by (simp add: pos_imp_zdiv_nonneg_iff)
  have "?g dvd (p - 1) * (q - 1)" by simp
  then show "carmichael p q * ?g = (p - 1) * (q - 1)"
    unfolding carmichael_def by simp
qed

lemma carmichael_pos:
  assumes "1 < p" "1 < q"
  shows "0 < carmichael p q"
proof -
  have "0 < (p - 1) * (q - 1)" using assms by simp
  then have "0 < carmichael p q * gcd (p - 1) (q - 1)"
    using carmichael_factor(5) [OF assms] by simp
  moreover have "0 < gcd (p - 1) (q - 1)" using assms by (simp add: gcd_pos_int)
  ultimately show ?thesis by (simp add: zero_less_mult_iff)
qed

lemma power_multiple_mod_one:
  fixes r :: int
  assumes "1 < p" "r ^ nat a mod p = 1" "0 \<le> a" "0 \<le> s"
  shows "p dvd r ^ nat (a * s) - 1"
proof -
  have "r ^ nat (a * s) = (r ^ nat a) ^ nat s"
    using assms(3,4) by (simp add: nat_mult_distrib power_mult)
  also have "\<dots> mod p = (r ^ nat a mod p) ^ nat s mod p" by (rule power_mod [symmetric])
  also have "\<dots> = 1 mod p" by (simp add: assms(2))
  finally show ?thesis by (rule mod_eq_dvd_iff [THEN iffD1])
qed

lemma carmichael_pq:
  assumes "isPrime p" "isPrime q" "p \<noteq> q" "coprime r (p * q)"
  shows "r ^ nat (carmichael p q) mod (p * q) = 1"
proof -
  have p1: "1 < p" and q1: "1 < q" using assms(1,2) by (simp_all add: isPrime_gt1)
  have np: "\<not> p dvd r" 
  proof
    assume "p dvd r"
    moreover have "coprime r p" using assms(4) by simp
    ultimately have "is_unit p" by (metis coprime_common_divisor dvd_refl)
    then show False using p1 by simp
  qed
  have nq: "\<not> q dvd r" 
  proof
    assume "q dvd r"
    moreover have "coprime r q" using assms(4) by simp
    ultimately have "is_unit q" by (metis coprime_common_divisor dvd_refl)
    then show False using q1 by simp
  qed
  have fp: "r ^ nat (p - 1) mod p = 1" by (rule fermat_little [OF assms(1) np])
  have fq: "r ^ nat (q - 1) mod q = 1" by (rule fermat_little [OF assms(2) nq])
  let ?l = "carmichael p q"
  have dp: "p dvd r ^ nat ?l - 1"
    using power_multiple_mod_one [OF p1 fp _ carmichael_factor(3) [OF p1 q1]] p1
    by (simp add: carmichael_factor(1) [OF p1 q1, symmetric])
  have dq: "q dvd r ^ nat ?l - 1"
    using power_multiple_mod_one [OF q1 fq _ carmichael_factor(4) [OF p1 q1]] q1
    by (simp add: carmichael_factor(2) [OF p1 q1, symmetric])
  have "p * q dvd r ^ nat ?l - 1"
    using dp dq isPrime_distinct_coprime [OF assms(1-3)] by (rule divides_mult)
  then have "r ^ nat ?l mod (p * q) = 1 mod (p * q)"
    by (rule mod_eq_dvd_iff [THEN iffD2])
  moreover have "1 < p * q" using p1 q1 by (simp add: less_1_mult)
  ultimately show ?thesis by simp
qed


lemma square_gt1: "1 < (n::int) \<Longrightarrow> 1 < n * n"
  by (simp add: less_1_mult)

lemma succ_power_mod_square:
  fixes n :: int
  assumes "1 < n"
  shows "(n + 1) ^ k mod (n * n) = 1 + n * (int k mod n)"
proof -
  have "(n * n) dvd (1 + n * 1) ^ k - (1 + int k * n * 1)" by (rule one_plus_power)
  then have "(1 + n * 1) ^ k mod (n * n) = (1 + int k * n * 1) mod (n * n)"
    by (rule mod_eq_dvd_iff [THEN iffD2])
  then have "(n + 1) ^ k mod (n * n) = (1 + n * int k) mod (n * n)"
    by (simp add: add.commute mult.commute)
  then show ?thesis by (simp only: mod_square_form [OF assms])
qed

lemma coprime_mod_self:
  fixes a n :: int
  assumes "coprime a n" "1 < n"
  shows "coprime (a mod n) n"
  using assms by (simp add: coprime_mod_left_iff)

lemma big_divide_L:
  assumes "1 < n" "0 \<le> x"
  shows "big_divide (n * x) n = Inr x"
proof -
  have "0 \<le> n * x" using assms by simp
  then show ?thesis using assms by (simp add: big_divide_def sdiv_nonneg)
qed

lemma deriveKeys_closed:
  assumes "isPrime p" "isPrime q" "p \<noteq> q" "gcd (p * q) ((p - 1) * (q - 1)) = 1"
  shows "\<exists>mu. deriveKeys p q =
            Inr (newPublicKey (p * q) (p * q + 1),
                 \<lparr>priv_lambda = carmichael p q, priv_mu = mu\<rparr>) \<and>
          0 \<le> mu \<and> mu < p * q \<and> (carmichael p q * mu) mod (p * q) = 1"
proof -
  have p1: "1 < p" and q1: "1 < q" using assms(1,2) by (simp_all add: isPrime_gt1)
  let ?n = "p * q" and ?l = "carmichael p q" and ?g = "gcd (p - 1) (q - 1)"
  have n1: "1 < ?n" using p1 q1 by (simp add: less_1_mult)
  have g: "0 < ?g" using p1 by (simp add: gcd_pos_int)
  have l0: "0 < ?l" by (rule carmichael_pos [OF p1 q1])
  have s1: "big_divide ((p - 1) * (q - 1)) ?g = Inr ?l"
    using p1 q1 g by (simp add: big_divide_nonneg carmichael_def)
  have s2: "modPow (?n + 1) ?l (?n * ?n) = Inr (1 + ?n * (?l mod ?n))"
    using n1 l0 by (simp add: modPow_correct square_gt1 succ_power_mod_square)
  have s3: "big_divide (?n * (?l mod ?n)) ?n = Inr (?l mod ?n)"
    using n1 by (intro big_divide_L) simp_all
  have "coprime (?n) (?l * ?g)"
    using assms(4) by (simp add: carmichael_factor(5) [OF p1 q1] coprime_iff_gcd_eq_1)
  then have "coprime ?l ?n" by (simp add: coprime_commute)
  then have "coprime (?l mod ?n) ?n" using n1 by (rule coprime_mod_self)
  moreover have "0 \<le> ?l mod ?n" using n1 by simp
  ultimately obtain mu where mu: "modInv (?l mod ?n) ?n = Inr mu" "0 \<le> mu" "mu < ?n"
      "((?l mod ?n) * mu) mod ?n = 1"
    using modInv_correct [OF n1] by blast
  have "(?l * mu) mod ?n = 1" using mu(4) by (simp add: mod_mult_left_eq)
  moreover have "deriveKeys p q =
      Inr (newPublicKey ?n (?n + 1), \<lparr>priv_lambda = ?l, priv_mu = mu\<rparr>)"
    by (simp add: deriveKeys_def Let_def s1 s2 s3 mu(1))
  ultimately show ?thesis using mu(2,3) by blast
qed

lemma encryptWithR_form:
  assumes "1 < n" "0 \<le> m" "m < n" "0 \<le> r"
  shows "encryptWithR m (newPublicKey n g) r = Inr (((1 + n * m) * r ^ nat n) mod (n * n), r)"
proof -
  have big: "1 < n * n" by (rule square_gt1 [OF assms(1)])
  have a: "0 \<le> n * m + 1" using assms by simp
  have s1: "big_mod (n * m + 1) (n * n) = Inr ((n * m + 1) mod (n * n))"
    using a big by (simp add: big_mod_nonneg)
  have s2: "modPow r n (n * n) = Inr (r ^ nat n mod (n * n))"
    using big assms by (simp add: modPow_correct)
  have s3: "big_mod ((n * m + 1) mod (n * n) * (r ^ nat n mod (n * n))) (n * n) =
      Inr (((n * m + 1) mod (n * n) * (r ^ nat n mod (n * n))) mod (n * n))"
    using big by (intro big_mod_nonneg) simp_all
  have "((n * m + 1) mod (n * n) * (r ^ nat n mod (n * n))) mod (n * n) =
      ((1 + n * m) * r ^ nat n) mod (n * n)"
    by (simp add: mod_mult_eq add.commute)
  then show ?thesis
    using assms(3) by (simp add: encryptWithR_def s1 s2 s3)
qed

lemma decrypt_general:
  assumes n: "1 < n" and lam: "0 \<le> lam" and mu: "(lam * mu) mod n = 1" "0 \<le> mu"
    and c: "0 \<le> c" "c < n * n"
    and form: "c mod (n * n) = ((1 + n * a) * s ^ nat n) mod (n * n)"
    and s: "s ^ nat lam mod n = 1"
  shows "decrypt c (newPublicKey n g) \<lparr>priv_lambda = lam, priv_mu = mu\<rparr> = Inr (a mod n)"
proof -
  let ?N = "n * n"
  have big: "1 < ?N" by (rule square_gt1 [OF n])
  have nN: "int (nat n) = n" using n by simp
  have "s ^ nat lam mod n = 1 mod n" using s n by simp
  then have "n dvd s ^ nat lam - 1" by (rule mod_eq_dvd_iff [THEN iffD1])
  then have d: "int (nat n) dvd s ^ nat lam - 1" using n by simp
  have "(int (nat n) * int (nat n)) dvd (s ^ nat lam) ^ nat n - 1 ^ nat n"
    by (rule power_cong_square [OF d])
  then have "?N dvd (s ^ nat lam) ^ nat n - 1" using n by simp
  then have "(s ^ nat lam) ^ nat n mod ?N = 1 mod ?N"
    by (rule mod_eq_dvd_iff [THEN iffD2])
  then have sn: "(s ^ nat n) ^ nat lam mod ?N = 1"
    using big by (simp add: power_mult [symmetric] mult.commute)
  have "?N dvd (1 + n * a) ^ nat lam - (1 + int (nat lam) * n * a)" by (rule one_plus_power)
  then have "(1 + n * a) ^ nat lam mod ?N = (1 + int (nat lam) * n * a) mod ?N"
    by (rule mod_eq_dvd_iff [THEN iffD2])
  then have an: "(1 + n * a) ^ nat lam mod ?N = (1 + n * (lam * a)) mod ?N"
    using lam by (simp add: mult.assoc mult.left_commute)
  have "c ^ nat lam mod ?N = (c mod ?N) ^ nat lam mod ?N" by (rule power_mod [symmetric])
  also have "\<dots> = ((1 + n * a) * s ^ nat n) ^ nat lam mod ?N"
    by (simp only: form power_mod)
  also have "\<dots> = ((1 + n * a) ^ nat lam * (s ^ nat n) ^ nat lam) mod ?N"
    by (simp only: power_mult_distrib)
  also have "\<dots> = (((1 + n * a) ^ nat lam mod ?N) * ((s ^ nat n) ^ nat lam mod ?N)) mod ?N"
    by (rule mod_mult_eq [symmetric])
  also have "\<dots> = (1 + n * (lam * a)) mod ?N"
    by (simp add: sn an)
  also have "\<dots> = 1 + n * ((lam * a) mod n)" by (rule mod_square_form [OF n])
  finally have u: "c ^ nat lam mod ?N = 1 + n * ((lam * a) mod n)" .
  have s1: "modPow c lam ?N = Inr (1 + n * ((lam * a) mod n))"
    using big c lam by (simp add: modPow_correct u)
  have s2: "big_divide (n * ((lam * a) mod n)) n = Inr ((lam * a) mod n)"
    using n by (intro big_divide_L) simp_all
  have "0 \<le> (lam * a) mod n * mu" using n mu(2) by simp
  then have s3: "big_mod ((lam * a) mod n * mu) n = Inr (((lam * a) mod n * mu) mod n)"
    using n by (simp add: big_mod_nonneg)
  have "((lam * a) mod n * mu) mod n = ((lam * a) * mu) mod n"
    by (rule mod_mult_left_eq)
  also have "\<dots> = (a * (lam * mu)) mod n" by (simp add: mult.assoc mult.left_commute)
  also have "\<dots> = (a * ((lam * mu) mod n)) mod n" by (rule mod_mult_right_eq [symmetric])
  also have "\<dots> = a mod n" by (simp add: mu(1))
  finally have fin: "((lam * a) mod n * mu) mod n = a mod n" .
  show ?thesis
    using c(2) by (simp add: decrypt_def s1 s2 s3 fin)
qed


lemma validKeyPair_facts:
  assumes "validKeyPair p q pub priv"
  shows "\<exists>mu. pub = newPublicKey (p * q) (p * q + 1) \<and>
          priv = \<lparr>priv_lambda = carmichael p q, priv_mu = mu\<rparr> \<and>
          1 < p * q \<and> 0 < carmichael p q \<and> 0 \<le> mu \<and> (carmichael p q * mu) mod (p * q) = 1"
proof -
  have pr: "isPrime p" "isPrime q" "p \<noteq> q" "gcd (p * q) ((p - 1) * (q - 1)) = 1"
    and dk: "deriveKeys p q = Inr (pub, priv)"
    using assms by (simp_all add: validKeyPair_def)
  have p1: "1 < p" and q1: "1 < q" using pr(1,2) by (simp_all add: isPrime_gt1)
  have "1 < p * q" using p1 q1 by (simp add: less_1_mult)
  moreover have "0 < carmichael p q" by (rule carmichael_pos [OF p1 q1])
  ultimately show ?thesis using deriveKeys_closed [OF pr] dk by auto
qed

lemma encrypt_form:
  assumes "1 < n" "0 \<le> m" "m < n"
    and "\<forall>r\<in>set rs. 0 < r \<and> coprime r n" "\<exists>r\<in>set rs. r < n"
  shows "\<exists>r. encrypt m (newPublicKey n g) rs = Inr (((1 + n * m) * r ^ nat n) mod (n * n)) \<and>
          coprime r n"
proof -
  obtain r where r: "drawBelow n rs = Inr r" "r \<in> set rs"
    using drawBelow_Inr [OF assms(5)] by blast
  then have r0: "0 \<le> r" and cop: "coprime r n" using assms(4) by auto
  have "encrypt m (newPublicKey n g) rs = Inr (((1 + n * m) * r ^ nat n) mod (n * n))"
    by (simp add: encrypt_def encryptWithoutR_def r(1) encryptWithR_form [OF assms(1-3) r0])
  then show ?thesis using cop by blast
qed

lemma pickPrimes_Inr:
  "pickPrimes bits ds = Inr (p, q) \<Longrightarrow>
   p \<in> set ds \<and> q \<in> set ds \<and> p \<noteq> q \<and> bitLength (p * q) = bits"
  by (induction bits ds rule: pickPrimes.induct) (auto split: if_splits)

lemma bitLength_bounds:
  assumes "0 < x" "bitLength x = b"
  shows "2 ^ nat (b - 1) \<le> x" "x < 2 ^ nat b"
  using bitlen_bounds [OF assms(1)] assms by (simp_all add: bitLength_def)

lemma isPrime_odd:
  assumes "isPrime p" "2 < p"
  shows "odd p"
proof
  assume "even p"
  moreover have "(2::int) \<in> {2..<p}" using assms(2) by simp
  ultimately show False using assms(1) unfolding isPrime_def by blast
qed

lemma equal_length_not_dvd:
  assumes "isPrime p" "isPrime q" "bitLength p = b" "bitLength q = b" "3 \<le> b"
  shows "\<not> p dvd q - 1"
proof
  assume d: "p dvd q - 1"
  have p1: "1 < p" and q1: "1 < q" using assms(1,2) by (simp_all add: isPrime_gt1)
  have bp: "2 ^ nat (b - 1) \<le> p" using bitLength_bounds [OF _ assms(3)] p1 by simp
  have bq: "q < 2 ^ nat b" using bitLength_bounds [OF _ assms(4)] q1 by simp
  have "nat b = Suc (nat (b - 1))" using assms(5) by simp
  then have pw: "(2::int) ^ nat b = 2 * 2 ^ nat (b - 1)" by simp
  have "Suc (Suc 0) \<le> nat (b - 1)" using assms(5) by simp
  then have "(2::int) ^ Suc (Suc 0) \<le> 2 ^ nat (b - 1)"
    by (intro power_increasing) simp_all
  then have p4: "4 \<le> p" using bp by simp
  obtain k where k: "q - 1 = p * k" using d by (auto simp: dvd_def)
  have "0 < p * k" using k q1 by simp
  then have k0: "0 < k" using p1 by (simp add: zero_less_mult_iff)
  have "k < 2"
  proof (rule ccontr)
    assume "\<not> k < 2"
    then have "p * 2 \<le> p * k" using p1 by (intro mult_left_mono) simp_all
    then show False using k bq bp pw by linarith
  qed
  then have "k = 1" using k0 by simp
  then have q: "q = p + 1" using k by simp
  have "odd p" using isPrime_odd [OF assms(1)] p4 by simp
  then have "even q" by (simp add: q)
  moreover have "odd q" using isPrime_odd [OF assms(2)] p4 q by simp
  ultimately show False by simp
qed

lemma equal_length_gcd:
  assumes "isPrime p" "isPrime q" "bitLength p = b" "bitLength q = b" "3 \<le> b"
  shows "gcd (p * q) ((p - 1) * (q - 1)) = 1"
proof -
  have a: "coprime p (q - 1)"
    by (rule isPrime_coprime [OF assms(1) equal_length_not_dvd [OF assms]])
  have b: "coprime q (p - 1)"
    by (rule isPrime_coprime [OF assms(2) equal_length_not_dvd [OF assms(2,1,4,3,5)]])
  have c: "coprime p (p - 1)" "coprime q (q - 1)"
    using coprime_diff_one_left [of p] coprime_diff_one_left [of q]
    by (simp_all add: coprime_commute)
  have "coprime (p * q) ((p - 1) * (q - 1))"
    using a b c by simp
  then show ?thesis by (simp add: coprime_iff_gcd_eq_1)
qed

lemma generateKeyPair_valid:
  assumes "generateKeyPair bits primes = Inr (pub, priv)"
    and "\<forall>p\<in>set primes. isPrime p \<and> bitLength p = bits div 2"
  shows "\<exists>p q. validKeyPair p q pub priv \<and> bitLength (p * q) = bits"
proof -
  have bits: "160 \<le> bits"
    using assms(1) by (auto simp: generateKeyPair_def split: if_splits)
  obtain p q where pq: "pickPrimes bits primes = Inr (p, q)" 
    and dk: "deriveKeys p q = Inr (pub, priv)"
    using assms(1) by (auto simp: generateKeyPair_def bindE_def split: if_splits sum.splits)
  have mem: "p \<in> set primes" "q \<in> set primes" "p \<noteq> q" "bitLength (p * q) = bits"
    using pickPrimes_Inr [OF pq] by simp_all
  have pr: "isPrime p" "isPrime q" "bitLength p = bits div 2" "bitLength q = bits div 2"
    using mem(1,2) assms(2) by simp_all
  have "3 \<le> bits div 2" using bits by simp
  then have "gcd (p * q) ((p - 1) * (q - 1)) = 1"
    by (rule equal_length_gcd [OF pr])
  then have "validKeyPair p q pub priv"
    unfolding validKeyPair_def using pr(1,2) mem(3) dk by blast
  then show ?thesis using mem(4) by blast
qed

lemma decrypt_encrypt_valid:
  assumes "validKeyPair p q pub priv"
    and "0 \<le> m" "m < pub_n pub"
    and "\<forall>r\<in>set rs. 0 < r \<and> coprime r (pub_n pub)" "\<exists>r\<in>set rs. r < pub_n pub"
  shows "\<exists>c. encrypt m pub rs = Inr c \<and> decrypt c pub priv = Inr m"
proof -
  define n where "n = p * q"
  let ?N = "n * n"
  let ?l = "carmichael p q"
  obtain mu where pub: "pub = newPublicKey n (n + 1)"
    and priv: "priv = \<lparr>priv_lambda = ?l, priv_mu = mu\<rparr>"
    and n1: "1 < n" and l0: "0 < ?l" and mu: "0 \<le> mu" "(?l * mu) mod n = 1"
    using validKeyPair_facts [OF assms(1)] unfolding n_def by blast
  have pr: "isPrime p" "isPrime q" "p \<noteq> q"
    using assms(1) by (simp_all add: validKeyPair_def)
  have pn: "pub_n pub = n" by (simp add: pub)
  have big: "1 < ?N" by (rule square_gt1 [OF n1])
  have h: "m < n" "\<forall>r\<in>set rs. 0 < r \<and> coprime r n" "\<exists>r\<in>set rs. r < n"
    using assms(3,4,5) by (simp_all add: pn)
  obtain r where e: "encrypt m pub rs = Inr (((1 + n * m) * r ^ nat n) mod ?N)"
    and c: "coprime r n"
    using encrypt_form [OF n1 assms(2) h, of "n + 1"] unfolding pub by blast
  let ?c = "((1 + n * m) * r ^ nat n) mod ?N"
  have s: "r ^ nat ?l mod n = 1"
    using c unfolding n_def by (rule carmichael_pq [OF pr])
  have "decrypt ?c pub priv = Inr (m mod n)"
    unfolding pub priv
    using big l0 by (intro decrypt_general [OF n1 _ mu(2) mu(1) _ _ _ s]) simp_all
  then show ?thesis using e assms(2) h(1) by simp
qed

lemma small_key: "validKeyPair 3 5 (newPublicKey 15 16) \<lparr>priv_lambda = 4, priv_mu = 4\<rparr>"
  by code_simp

lemma small_coprime: "coprime (17::int) 15" "coprime (2::int) 15" "coprime (7::int) 15"
  by code_simp+

section \<open>The algebra of the signature scheme\<close>

lemma carmichael_ge2:
  assumes "isPrime p" "isPrime q" "p \<noteq> q"
  shows "1 < carmichael p q"
proof (rule ccontr)
  assume "\<not> 1 < carmichael p q"
  have p1: "1 < p" and q1: "1 < q" using assms(1,2) by (simp_all add: isPrime_gt1)
  have "0 < carmichael p q" by (rule carmichael_pos [OF p1 q1])
  then have l: "carmichael p q = 1" using \<open>\<not> 1 < carmichael p q\<close> by simp
  have big: "3 < p * q"
  proof -
    have "2 * 2 \<le> p * q" using p1 q1 by (intro mult_mono) simp_all
    moreover have "p * q \<noteq> 4"
    proof
      assume e: "p * q = 4"
      then have "p dvd 4" by (metis dvd_triv_left)
      then have "p \<le> 4" using zdvd_imp_le by fastforce
      then have "p = 2 \<or> p = 3 \<or> p = 4" using p1 by auto
      then show False using e q1 assms(3) by auto
    qed
    ultimately show ?thesis by simp
  qed
  have "coprime (p * q - 1) (p * q)" by (rule coprime_diff_one_left)
  then have "(p * q - 1) ^ nat (carmichael p q) mod (p * q) = 1"
    by (rule carmichael_pq [OF assms])
  then have "(p * q - 1) mod (p * q) = 1" by (simp add: l)
  then show False using big by (simp add: zmod_minus1)
qed

lemma signature_math:
  fixes n L mu h t s1 invN s2 :: int
  assumes n: "1 < n" and L: "0 \<le> L" and mu: "(L * mu) mod n = 1"
    and hL: "h ^ nat L mod (n * n) = 1 + n * t"
    and s1: "s1 = (t * mu) mod n"
    and invN: "0 \<le> invN" "(n * invN) mod L = 1" "1 < L"
    and s2: "s2 = h ^ nat invN mod n"
  shows "((1 + n * s1) * s2 ^ nat n) mod (n * n) = h mod (n * n)"
proof -
  let ?N = "n * n"
  define k where "k = (n * invN) div L"
  have k0: "0 \<le> k" using n invN(1,3) by (simp add: k_def pos_imp_zdiv_nonneg_iff)
  have nk: "n * invN = 1 + k * L"
    using invN(2) div_mult_mod_eq [of "n * invN" L] by (simp add: k_def)
  \<comment> \<open>\<open>\<mu> + k\<close> is a multiple of \<open>n\<close>\<close>
  have d1: "n dvd L * mu - 1"
    using mu n by (intro mod_eq_dvd_iff [THEN iffD1]) simp
  have "n dvd mu * (n * invN) - k * (L * mu - 1)" using d1 by (intro dvd_diff) simp_all
  moreover have "mu * (n * invN) - k * (L * mu - 1) = mu + k"
  proof -
    have "mu * (n * invN) = mu * (1 + k * L)" by (simp only: nk)
    then show ?thesis by (simp add: algebra_simps)
  qed
  ultimately have d2: "n dvd mu + k" by simp
  \<comment> \<open>\<open>s1 + k t\<close> is a multiple of \<open>n\<close>\<close>
  have "s1 mod n = (t * mu) mod n" by (simp add: s1)
  then have "n dvd s1 - t * mu" by (rule mod_eq_dvd_iff [THEN iffD1])
  then have "n dvd (s1 - t * mu) + t * (mu + k)" using d2 by (intro dvd_add) simp_all
  moreover have "(s1 - t * mu) + t * (mu + k) = s1 + k * t" by (simp add: algebra_simps)
  ultimately have d3: "n dvd s1 + k * t" by simp
  \<comment> \<open>\<open>s2\<^sup>n\<close> is \<open>h (h\<^sup>L)\<^sup>k\<close> modulo \<open>n\<^sup>2\<close>\<close>
  have "s2 mod n = h ^ nat invN mod n" by (simp add: s2)
  then have "n dvd s2 - h ^ nat invN" by (rule mod_eq_dvd_iff [THEN iffD1])
  then have "int (nat n) dvd s2 - h ^ nat invN" using n by simp
  then have "(int (nat n) * int (nat n)) dvd s2 ^ nat n - (h ^ nat invN) ^ nat n"
    by (rule power_cong_square)
  then have "?N dvd s2 ^ nat n - (h ^ nat invN) ^ nat n" using n by simp
  then have e1: "s2 ^ nat n mod ?N = (h ^ nat invN) ^ nat n mod ?N"
    by (rule mod_eq_dvd_iff [THEN iffD2])
  have "nat invN * nat n = nat (n * invN)"
    using n invN(1) by (simp add: nat_mult_distrib mult.commute)
  also have "\<dots> = nat (1 + k * L)" by (simp only: nk)
  also have "\<dots> = Suc (nat L * nat k)"
    using k0 L by (simp add: nat_mult_distrib nat_add_distrib mult.commute)
  finally have "(h ^ nat invN) ^ nat n = h * (h ^ nat L) ^ nat k"
    by (simp add: power_mult [symmetric])
  then have e2: "s2 ^ nat n mod ?N = (h * (h ^ nat L) ^ nat k) mod ?N"
    using e1 by simp
  have "(h ^ nat L) ^ nat k mod ?N = (h ^ nat L mod ?N) ^ nat k mod ?N"
    by (rule power_mod [symmetric])
  also have "\<dots> = (1 + n * t) ^ nat k mod ?N" by (simp only: hL)
  also have "\<dots> = (1 + int (nat k) * n * t) mod ?N"
    by (rule mod_eq_dvd_iff [THEN iffD2]) (rule one_plus_power)
  finally have e3: "(h ^ nat L) ^ nat k mod ?N = (1 + k * n * t) mod ?N"
    using k0 by simp
  have "(h * (h ^ nat L) ^ nat k) mod ?N = (h * ((h ^ nat L) ^ nat k mod ?N)) mod ?N"
    by (rule mod_mult_right_eq [symmetric])
  also have "\<dots> = (h * ((1 + k * n * t) mod ?N)) mod ?N" by (simp only: e3)
  also have "\<dots> = (h * (1 + k * n * t)) mod ?N" by (rule mod_mult_right_eq)
  finally have e4: "s2 ^ nat n mod ?N = (h * (1 + k * n * t)) mod ?N"
    using e2 by simp
  have "((1 + n * s1) * s2 ^ nat n) mod ?N = ((1 + n * s1) * (s2 ^ nat n mod ?N)) mod ?N"
    by (rule mod_mult_right_eq [symmetric])
  also have "\<dots> = ((1 + n * s1) * ((h * (1 + k * n * t)) mod ?N)) mod ?N" by (simp only: e4)
  also have "\<dots> = ((1 + n * s1) * (h * (1 + k * n * t))) mod ?N" by (rule mod_mult_right_eq)
  also have "\<dots> = h mod ?N"
  proof (rule mod_eq_dvd_iff [THEN iffD2])
    obtain c where c: "s1 + k * t = n * c" using d3 by (auto simp: dvd_def)
    have "(1 + n * s1) * (h * (1 + k * n * t)) - h =
          h * (n * (s1 + k * t)) + ?N * (h * s1 * k * t)"
      by (simp add: algebra_simps)
    also have "\<dots> = ?N * (h * c + h * s1 * k * t)"
      by (simp add: c algebra_simps)
    finally show "?N dvd (1 + n * s1) * (h * (1 + k * n * t)) - h" by simp
  qed
  finally show ?thesis .
qed


lemma modInv_one:
  assumes "1 < n"
  shows "modInv 1 n = Inr 1"
proof -
  obtain t where t: "modInv 1 n = Inr t" "0 \<le> t" "t < n" "(1 * t) mod n = 1"
    using modInv_correct [OF assms, of 1] by auto
  then have "t = 1" by simp
  then show ?thesis using t(1) by simp
qed

lemma succ_power_mod:
  fixes n :: int
  assumes "1 < n"
  shows "(n + 1) ^ k mod n = 1"
proof -
  have "(n + 1) ^ k mod n = ((n + 1) mod n) ^ k mod n" by (rule power_mod [symmetric])
  then show ?thesis using assms by simp
qed

lemma signature_valid:
  assumes "validKeyPair p q pub priv"
    and h: "0 \<le> hashInt m" "hashInt m < pub_nSquared pub" "coprime (hashInt m) (pub_n pub)"
  shows "\<exists>sig. createSignature hashInt m pub priv = Inr sig \<and>
           verifySignature hashInt m sig pub = Inr True"
proof -
  define n where "n = p * q"
  define h where "h = hashInt m"
  let ?N = "n * n"
  let ?L = "carmichael p q"
  obtain mu where pub: "pub = newPublicKey n (n + 1)"
    and priv: "priv = \<lparr>priv_lambda = ?L, priv_mu = mu\<rparr>"
    and n1: "1 < n" and l0: "0 < ?L" and mu: "0 \<le> mu" "(?L * mu) mod n = 1"
    using validKeyPair_facts [OF assms(1)] unfolding n_def by blast
  have pr: "isPrime p" "isPrime q" "p \<noteq> q" "gcd (p * q) ((p - 1) * (q - 1)) = 1"
    using assms(1) by (simp_all add: validKeyPair_def)
  have p1: "1 < p" and q1: "1 < q" using pr(1,2) by (simp_all add: isPrime_gt1)
  have big: "1 < ?N" by (rule square_gt1 [OF n1])
  have h0: "0 \<le> h" and hN: "h < ?N" and hc: "coprime h n"
    using assms(2-4) by (simp_all add: h_def pub)
  have L1: "1 < ?L" by (rule carmichael_ge2 [OF pr(1-3)])
  \<comment> \<open>createSignature\<close>
  define hl where "hl = h ^ nat ?L mod ?N"
  define t where "t = hl div n"
  have c1: "modPow h ?L ?N = Inr hl"
    using big h0 l0 by (simp add: modPow_correct hl_def)
  have "h ^ nat ?L mod n = 1"
    using hc unfolding n_def by (rule carmichael_pq [OF pr(1-3)])
  moreover have "hl mod n = h ^ nat ?L mod n"
    unfolding hl_def by (rule mod_mod_cancel) simp
  ultimately have hl1: "hl mod n = 1" by simp
  have hl0: "0 \<le> hl" using big by (simp add: hl_def)
  have hlt: "hl = 1 + n * t"
    using hl1 mult_div_mod_eq [of n hl] by (simp add: t_def)
  have t0: "0 \<le> t" using hl0 n1 by (simp add: t_def pos_imp_zdiv_nonneg_iff)
  have c2: "big_divide (n * t) n = Inr t" by (rule big_divide_L [OF n1 t0])
  define s1 where "s1 = (t * mu) mod n"
  have c3: "big_mod (t * mu) n = Inr s1"
    using n1 t0 mu(1) by (simp add: big_mod_nonneg s1_def)
  have s1r: "0 \<le> s1" "s1 < n" using n1 by (simp_all add: s1_def)
  have "coprime n (?L * gcd (p - 1) (q - 1))"
    using pr(4) by (simp add: carmichael_factor(5) [OF p1 q1] coprime_iff_gcd_eq_1 n_def)
  then have "coprime n ?L" by simp
  then obtain invN where c4: "modInv n ?L = Inr invN"
    and invN: "0 \<le> invN" "(n * invN) mod ?L = 1"
    using modInv_correct [OF L1, of n] n1 by auto
  have c5: "modPow (n + 1) s1 n = Inr 1"
    using n1 s1r(1) by (simp add: modPow_correct succ_power_mod)
  have c6: "modInv 1 n = Inr 1" by (rule modInv_one [OF n1])
  define s2 where "s2 = h ^ nat invN mod n"
  have c7: "modPow h invN n = Inr s2"
    using n1 h0 invN(1) by (simp add: modPow_correct s2_def)
  have s20: "0 \<le> s2" using n1 by (simp add: s2_def)
  have create: "createSignature hashInt m pub priv = Inr \<lparr>sig_s1 = s1, sig_s2 = s2\<rparr>"
    using c1 c2 c3 c4 c5 c6 c7
    by (simp add: createSignature_def Let_def pub priv h_def [symmetric] hlt)
  \<comment> \<open>verifySignature\<close>
  have "(n + 1) ^ nat s1 mod ?N = 1 + n * (int (nat s1) mod n)"
    by (rule succ_power_mod_square [OF n1])
  then have v1: "modPow (n + 1) s1 ?N = Inr (1 + n * s1)"
    using big n1 s1r by (simp add: modPow_correct)
  have v2: "modPow s2 n ?N = Inr (s2 ^ nat n mod ?N)"
    using big n1 s20 by (simp add: modPow_correct)
  have "0 \<le> (1 + n * s1) * (s2 ^ nat n mod ?N)" using n1 s1r(1) big by simp
  then have v3: "big_mod ((1 + n * s1) * (s2 ^ nat n mod ?N)) ?N =
      Inr (((1 + n * s1) * (s2 ^ nat n mod ?N)) mod ?N)"
    using big by (simp add: big_mod_nonneg)
  have "((1 + n * s1) * (s2 ^ nat n mod ?N)) mod ?N = ((1 + n * s1) * s2 ^ nat n) mod ?N"
    by (rule mod_mult_right_eq)
  also have "\<dots> = h mod ?N"
  proof (rule signature_math [where L = "?L" and mu = mu and t = t and invN = invN])
    show "h ^ nat ?L mod ?N = 1 + n * t" using hlt by (simp add: hl_def)
    show "0 \<le> ?L" using l0 by simp
  qed (fact n1 mu(2) s1_def invN L1 s2_def)+
  also have "\<dots> = h" using h0 hN by simp
  finally have fin: "((1 + n * s1) * (s2 ^ nat n mod ?N)) mod ?N = h" .
  have "verifySignature hashInt m \<lparr>sig_s1 = s1, sig_s2 = s2\<rparr> pub = Inr True"
    using v1 v2 v3 fin by (simp add: verifySignature_def Let_def pub h_def [symmetric])
  then show ?thesis using create by blast
qed

lemma generated_modulus_large:
  assumes "validKeyPair p q pub priv" "bitLength (p * q) = bits" "256 \<le> bits"
  shows "2 ^ 256 < pub_nSquared pub"
proof -
  obtain mu where pub: "pub = newPublicKey (p * q) (p * q + 1)" and n1: "1 < p * q"
    using validKeyPair_facts [OF assms(1)] by blast
  define n where "n = p * q"
  have lo: "2 ^ nat (bits - 1) \<le> n"
    using bitLength_bounds(1) [OF _ assms(2)] n1 by (simp add: n_def)
  have "255 \<le> nat (bits - 1)" using assms(3) by simp
  then have "(2::int) ^ 255 \<le> 2 ^ nat (bits - 1)" by (intro power_increasing) simp_all
  then have n255: "2 ^ 255 \<le> n" using lo by simp
  have "(2::int) ^ 255 * 2 ^ 255 \<le> n * n" using n255 by (intro mult_mono) simp_all
  moreover have "(2::int) ^ 256 < 2 ^ 255 * 2 ^ 255" by simp
  ultimately show ?thesis by (simp add: pub n_def)
qed

section \<open>Certified primes\<close>

lemma exists_prime_factor_nat:
  "1 < m \<Longrightarrow> \<exists>q. isPrime q \<and> q dvd int m"
proof (induction m rule: less_induct)
  case (less m)
  show ?case
  proof (cases "isPrime (int m)")
    case True
    then have "isPrime (int m) \<and> int m dvd int m" by simp
    then show ?thesis by blast
  next
    case False
    then obtain d where d: "d \<in> {2..<int m}" "d dvd int m"
      using less.prems by (auto simp: isPrime_def)
    then have "1 < nat d" "nat d < m" by auto
    then obtain q where "isPrime q" "q dvd int (nat d)" using less.IH by blast
    then have "isPrime q \<and> q dvd int m" using d by (auto intro: dvd_trans)
    then show ?thesis by blast
  qed
qed

lemma exists_small_prime_factor:
  assumes "1 < n" "\<not> isPrime n"
  shows "\<exists>q. isPrime q \<and> q dvd n \<and> q * q \<le> n"
proof -
  obtain d where d: "2 \<le> d" "d < n" "d dvd n"
    using assms by (auto simp: isPrime_def)
  then obtain e where e: "n = d * e" by (auto simp: dvd_def)
  have "0 < d * e" using e assms(1) by simp
  then have e0: "0 < e" using d(1) by (auto simp: zero_less_mult_iff)
  have "e \<noteq> 1" using e d(2) by auto
  then have e2: "2 \<le> e" using e0 by simp
  define a where "a = min d e"
  have a: "2 \<le> a" "a dvd n" "a * a \<le> n"
  proof -
    show "2 \<le> a" using d(1) e2 by (simp add: a_def)
    show "a dvd n" using e by (auto simp: a_def min_def)
    have "a * a \<le> d * e" using d(1) e2 by (intro mult_mono) (auto simp: a_def)
    then show "a * a \<le> n" by (simp add: e)
  qed
  obtain q where q: "isPrime q" "q dvd int (nat a)"
    using exists_prime_factor_nat [of "nat a"] a(1) by auto
  then have qa: "q dvd a" using a(1) by simp
  have "q \<le> a" using qa a(1) by (intro zdvd_imp_le) simp_all
  moreover have "0 < q" using q(1) isPrime_gt1 by fastforce
  ultimately have "q * q \<le> a * a" by (intro mult_mono) simp_all
  then have "q * q \<le> n" using a(3) by simp
  moreover have "q dvd n" using qa a(2) by (rule dvd_trans)
  ultimately show ?thesis using q(1) by blast
qed

lemma power_gcd_mod_one:
  fixes a q :: int
  assumes "1 < q" "a ^ x mod q = 1" "a ^ y mod q = 1" "x \<noteq> 0"
  shows "a ^ gcd x y mod q = 1"
proof -
  obtain u v where uv: "x * u = y * v + gcd x y"
    using bezout_nat [OF assms(4), of y] by blast
  have "a ^ (x * u) mod q = (a ^ x mod q) ^ u mod q"
    by (simp add: power_mult power_mod)
  then have l: "a ^ (x * u) mod q = 1" using assms(1,2) by simp
  have "a ^ (y * v) mod q = (a ^ y mod q) ^ v mod q"
    by (simp add: power_mult power_mod)
  then have r: "a ^ (y * v) mod q = 1" using assms(1,3) by simp
  have "a ^ (x * u) mod q = (a ^ (y * v) * a ^ gcd x y) mod q"
    by (simp only: uv power_add)
  also have "\<dots> = ((a ^ (y * v) mod q) * a ^ gcd x y) mod q"
    by (rule mod_mult_left_eq [symmetric])
  finally show ?thesis using l r by simp
qed

lemma two_power_decomp:
  "0 < (g::nat) \<Longrightarrow> \<exists>j u. g = 2 ^ j * u \<and> odd u"
proof (induction g rule: less_induct)
  case (less g)
  show ?case
  proof (cases "odd g")
    case True
    then have "g = 2 ^ 0 * g \<and> odd g" by simp
    then show ?thesis by blast
  next
    case False
    then obtain g' where g': "g = 2 * g'" by (auto elim: evenE)
    then have "0 < g'" "g' < g" using less.prems by auto
    then obtain j u where "g' = 2 ^ j * u" "odd u" using less.IH by blast
    then have "g = 2 ^ Suc j * u \<and> odd u" using g' by simp
    then show ?thesis by blast
  qed
qed

lemma dvd_half_power:
  fixes g k :: nat
  assumes "g dvd k * 2 ^ e" "\<not> 2 ^ e dvd g" "0 < g" "0 < e"
  shows "g dvd k * 2 ^ (e - 1)"
proof -
  obtain j u where g: "g = 2 ^ j * u" and u: "odd u"
    using two_power_decomp [OF assms(3)] by blast
  have "j < e"
  proof (rule ccontr)
    assume "\<not> j < e"
    then have "(2::nat) ^ e dvd 2 ^ j" by (simp add: le_imp_power_dvd)
    then have "2 ^ e dvd g" by (simp add: g)
    then show False using assms(2) by simp
  qed
  then have j: "(2::nat) ^ j dvd 2 ^ (e - 1)" by (intro le_imp_power_dvd) simp
  have "u dvd k * 2 ^ e" using assms(1) g by (metis dvd_mult_right)
  moreover have "coprime u (2 ^ e)" using u by simp
  ultimately have "u dvd k" by (simp add: coprime_dvd_mult_left_iff)
  then have "u * 2 ^ j dvd k * 2 ^ (e - 1)" using j by (rule mult_dvd_mono)
  then show ?thesis by (simp add: g mult.commute)
qed


lemma proth:
  fixes p k a :: int and e :: nat
  assumes p: "p = k * 2 ^ e + 1" and k: "0 < k" "k < 2 ^ e" and e: "0 < e"
    and a: "a ^ nat ((p - 1) div 2) mod p = p - 1"
  shows "isPrime p"
proof (rule ccontr)
  assume np: "\<not> isPrime p"
  define h where "h = nat k * 2 ^ (e - 1)"
  obtain e' where e': "e = Suc e'" using e by (cases e) auto
  have E2: "(2::int) ^ e = 2 * 2 ^ (e - 1)" by (simp add: e')
  have E2n: "(2::nat) ^ e = 2 * 2 ^ (e - 1)" by (simp add: e')
  have half: "(p - 1) div 2 = k * 2 ^ (e - 1)" by (simp add: p E2)
  have hh: "nat ((p - 1) div 2) = h"
    using k(1) by (simp add: half h_def nat_mult_distrib nat_power_eq)
  have h2: "2 * h = nat k * 2 ^ e" by (simp add: h_def E2n)
  have h0: "0 < h" using k(1) by (simp add: h_def)
  have Epos: "(2::int) \<le> 2 ^ e" by (simp add: e')
  have "1 * 2 \<le> k * 2 ^ e" using k(1) Epos by (intro mult_mono) simp_all
  then have p3: "3 \<le> p" by (simp add: p)
  have oddp: "odd p" by (simp add: p e')
  obtain q where q: "isPrime q" "q dvd p" "q * q \<le> p"
    using exists_small_prime_factor [OF _ np] p3 by auto
  have q1: "1 < q" using q(1) by (rule isPrime_gt1)
  have "q \<noteq> 2" using q(2) oddp by auto
  then have q2: "2 < q" using q1 by simp
  \<comment> \<open>\<open>a\<^sup>h = -1\<close> modulo \<open>q\<close>\<close>
  have "a ^ h mod p = (- 1) mod p" using a p3 by (simp add: hh zmod_minus1)
  then have "p dvd a ^ h - (- 1)" by (rule mod_eq_dvd_iff [THEN iffD1])
  then have dq: "q dvd a ^ h + 1" using q(2) by (auto intro: dvd_trans)
  have ne1: "a ^ h mod q \<noteq> 1"
  proof
    assume "a ^ h mod q = 1"
    then have "a ^ h mod q = 1 mod q" using q1 by simp
    then have "q dvd a ^ h - 1" by (rule mod_eq_dvd_iff [THEN iffD1])
    then have "q dvd (a ^ h + 1) - (a ^ h - 1)" using dq by (rule dvd_diff [rotated])
    then have "q dvd 2" by simp
    then have "q \<le> 2" by (intro zdvd_imp_le) simp_all
    then show False using q2 by simp
  qed
  have "q dvd (a ^ h + 1) * (a ^ h - 1)" using dq by simp
  moreover have "(a ^ h + 1) * (a ^ h - 1) = a ^ (2 * h) - 1"
  proof -
    have "a ^ (2 * h) = a ^ h * a ^ h" by (simp only: mult_2 power_add)
    then show ?thesis by (simp add: algebra_simps)
  qed
  ultimately have "q dvd a ^ (2 * h) - 1" by simp
  then have "a ^ (2 * h) mod q = 1 mod q" by (rule mod_eq_dvd_iff [THEN iffD2])
  then have one2h: "a ^ (2 * h) mod q = 1" using q1 by simp
  have nd: "\<not> q dvd a"
  proof
    assume "q dvd a"
    moreover have "a dvd a ^ h" using h0 by (intro dvd_power) simp
    ultimately have "q dvd a ^ h" by (rule dvd_trans)
    then have "q dvd (a ^ h + 1) - a ^ h" using dq by (rule dvd_diff [rotated])
    then have "q dvd 1" by simp
    then show False using q1 by simp
  qed
  have fer: "a ^ nat (q - 1) mod q = 1" by (rule fermat_little [OF q(1) nd])
  define g where "g = gcd (2 * h) (nat (q - 1))"
  have g1: "a ^ g mod q = 1"
    unfolding g_def using h0 by (intro power_gcd_mod_one [OF q1 one2h fer]) simp
  have gd: "g dvd nat k * 2 ^ e" unfolding g_def h2 [symmetric] by simp
  have gq: "g dvd nat (q - 1)" unfolding g_def by simp
  have g0: "0 < g" using h0 by (simp add: g_def)
  have "2 ^ e dvd g"
  proof (rule ccontr)
    assume "\<not> 2 ^ e dvd g"
    then have "g dvd h" unfolding h_def by (rule dvd_half_power [OF gd _ g0 e])
    then obtain c where c: "h = g * c" by (auto simp: dvd_def)
    have "a ^ h mod q = (a ^ g mod q) ^ c mod q"
      by (simp add: c power_mult power_mod)
    then have "a ^ h mod q = 1" using g1 q1 by simp
    then show False using ne1 by simp
  qed
  then have "2 ^ e dvd nat (q - 1)" using gq by (rule dvd_trans)
  then have "(2::nat) ^ e \<le> nat (q - 1)" using q1 by (intro dvd_imp_le) simp_all
  then have "int (2 ^ e) \<le> int (nat (q - 1))" by (simp only: of_nat_le_iff)
  then have le: "(2::int) ^ e \<le> q - 1" using q1 by simp
  define T where "T = (2::int) ^ e"
  have T: "2 \<le> T" "T + 1 \<le> q" "k < T" using Epos le k(2) by (simp_all add: T_def)
  have "(T + 1) * (T + 1) \<le> q * q"
    using T(1,2) by (intro mult_mono) simp_all
  moreover have "k * T \<le> T * T"
    using T(1,3) by (intro mult_right_mono) simp_all
  moreover have "(T + 1) * (T + 1) = T * T + 2 * T + 1" by (simp add: algebra_simps)
  moreover have "p = k * T + 1" by (simp add: p T_def)
  ultimately have "p < q * q" using T(1) by linarith
  then show False using q(3) by simp
qed

lemma mod_diff_multiple:
  fixes x q p :: int
  shows "(x - q * p) mod p = x mod p"
  by (rule mod_eq_dvd_iff [THEN iffD2]) simp

lemma certPow_sound:
  "0 \<le> ex \<Longrightarrow> acc mod p = a ^ nat ex mod p \<Longrightarrow> certPow p a acc ex hs = (r, E) \<Longrightarrow>
   r mod p = a ^ nat E mod p \<and> 0 \<le> E"
proof (induction hs arbitrary: acc ex)
  case Nil
  then show ?case by simp
next
  case (Cons x hs)
  obtain mul qh where x: "x = (mul, qh)" by (cases x)
  show ?case
  proof (cases mul)
    case True
    have "(acc * a - qh * p) mod p = (acc * a) mod p" by (rule mod_diff_multiple)
    also have "\<dots> = ((acc mod p) * a) mod p" by (rule mod_mult_left_eq [symmetric])
    also have "\<dots> = (a ^ nat ex * a) mod p" by (simp only: Cons.prems(2) mod_mult_left_eq)
    also have "\<dots> = a ^ nat (ex + 1) mod p"
      using Cons.prems(1) by (simp add: nat_add_distrib mult.commute)
    finally have inv: "(acc * a - qh * p) mod p = a ^ nat (ex + 1) mod p" .
    have "certPow p a (acc * a - qh * p) (ex + 1) hs = (r, E)"
      using Cons.prems(3) True by (simp add: x)
    then show ?thesis using Cons.IH [OF _ inv] Cons.prems(1) by simp
  next
    case False
    have "(acc * acc - qh * p) mod p = (acc * acc) mod p" by (rule mod_diff_multiple)
    also have "\<dots> = ((acc mod p) * (acc mod p)) mod p" by (rule mod_mult_eq [symmetric])
    also have "\<dots> = (a ^ nat ex * a ^ nat ex) mod p" by (simp only: Cons.prems(2) mod_mult_eq)
    also have "\<dots> = a ^ nat (2 * ex) mod p"
    proof -
      have "nat (2 * ex) = nat ex + nat ex" using Cons.prems(1) by arith
      then show ?thesis by (simp only: power_add)
    qed
    finally have inv: "(acc * acc - qh * p) mod p = a ^ nat (2 * ex) mod p" .
    have "certPow p a (acc * acc - qh * p) (2 * ex) hs = (r, E)"
      using Cons.prems(3) False by (simp add: x)
    then show ?thesis using Cons.IH [OF _ inv] Cons.prems(1) by simp
  qed
qed

lemma proth_certificate:
  fixes p k a r E :: int and e :: nat
  assumes "p = k * 2 ^ e + 1" "0 < k" "k < 2 ^ e" "0 < e"
    and "certPow p a 1 0 hs = (r, E)" "r = p - 1" "2 * E = p - 1"
  shows "isPrime p"
proof -
  have "1 * 1 \<le> k * 2 ^ e" using assms(2) by (intro mult_mono) simp_all
  then have p2: "2 \<le> p" by (simp add: assms(1))
  have "r mod p = a ^ nat E mod p"
    using certPow_sound [OF _ _ assms(5)] p2 by simp
  moreover have "E = (p - 1) div 2" using assms(7) by simp
  ultimately have "a ^ nat ((p - 1) div 2) mod p = p - 1"
    using p2 by (simp add: assms(6) zmod_minus1)
  then show ?thesis by (rule proth [OF assms(1-4)])
qed

subsection \<open>A generated 256-bit key\<close>

text \<open>
  Two primes of 128 bits of the form \<open>k 2\<^sup>6\<^sup>4 + 1\<close>, proved prime by Proth's criterion, and
  the key pair \<^verbatim>\<open>generateKeyPair(256)\<close> returns when the prime sampler yields them.
\<close>

lemma bitLength_eqI:
  assumes "0 < x" "2 ^ k \<le> x" "x < 2 * 2 ^ k"
  shows "bitLength x = int k + 1"
proof -
  have n: "nat (int k + 1) = Suc k" by simp
  have "bitlen x \<le> int k + 1"
    using assms(3) by (simp only: bitlen_le_iff_power n) simp
  moreover have "int k + 1 \<le> bitlen x"
    using assms(2) by (simp only: bitlen_ge_iff_power n) simp
  ultimately show ?thesis using assms(1) by (simp add: bitLength_def)
qed

lemma gcd_certificate:
  fixes a b g a' b' u v :: int
  assumes "a = g * a'" "b = g * b'" "u * a' + v * b' = 1" "0 < g"
  shows "gcd a b = g"
proof -
  have "coprime a' b'"
  proof (rule coprimeI)
    fix d assume "d dvd a'" "d dvd b'"
    then have "d dvd u * a' + v * b'" by simp
    then show "is_unit d" by (simp only: assms(3))
  qed
  then have "gcd a' b' = 1" by (simp add: coprime_iff_gcd_eq_1)
  moreover have "gcd (g * a') (g * b') = \<bar>g\<bar> * gcd a' b'" by (rule gcd_mult_distrib_int [symmetric])
  ultimately show ?thesis using assms(1,2,4) by simp
qed

lemma carmichael_value:
  assumes "(p - 1) * (q - 1) = lam * g" "gcd (p - 1) (q - 1) = g" "0 < g"
  shows "carmichael p q = lam"
  using assms by (simp add: carmichael_def)

lemma mod_one_certificate:
  fixes x t n :: int
  assumes "x = t * n + 1" "1 < n"
  shows "x mod n = 1"
  using assms by simp

lemma deriveKeys_value:
  assumes pr: "isPrime p" "isPrime q" "p \<noteq> q" "gcd (p * q) ((p - 1) * (q - 1)) = 1"
    and mu: "0 \<le> mu" "mu < p * q" "(carmichael p q * mu) mod (p * q) = 1"
  shows "deriveKeys p q =
           Inr (newPublicKey (p * q) (p * q + 1),
                \<lparr>priv_lambda = carmichael p q, priv_mu = mu\<rparr>)"
proof -
  let ?n = "p * q" and ?l = "carmichael p q"
  obtain mu' where dk: "deriveKeys p q =
      Inr (newPublicKey ?n (?n + 1), \<lparr>priv_lambda = ?l, priv_mu = mu'\<rparr>)"
    and mu': "0 \<le> mu'" "mu' < ?n" "(?l * mu') mod ?n = 1"
    using deriveKeys_closed [OF pr] by blast
  have "mu mod ?n = (mu * ((?l * mu') mod ?n)) mod ?n" by (simp add: mu'(3))
  also have "\<dots> = (mu * (?l * mu')) mod ?n" by (rule mod_mult_right_eq)
  also have "\<dots> = ((?l * mu) * mu') mod ?n" by (simp add: mult.assoc mult.left_commute)
  also have "\<dots> = (((?l * mu) mod ?n) * mu') mod ?n" by (rule mod_mult_left_eq [symmetric])
  also have "\<dots> = mu' mod ?n" by (simp add: mu(3))
  finally have "mu = mu'" using mu(1,2) mu'(1,2) by simp
  then show ?thesis using dk by simp
qed

lemma P128_certificate:
  "certPow 340282366920938371580142376284491612161 23 1 0
   [(False, 0), (True, 0), (False, 0), (True, 0), (False, 0), (True, 0), (False, 0),
    (True, 0), (False, 208), (True, 21), (False, 37690369141526780905331411203702522766),
    (True, 15), (False, 31690068746541885782894074848235177136), (True, 22),
    (False, 8061751089458600802415857400309424118), (True, 11),
    (False, 35627447741901578118265114958153881017), (True, 16),
    (False, 315759217489350871132183243570454898392), (True, 9),
    (False, 318893406436607637772833292511114222629), (True, 19),
    (False, 106800027392241344168640042630553983876), (True, 6),
    (False, 258438869313118080027001117758750476612), (True, 3),
    (False, 127844776098588994722608825072273950667), (True, 4),
    (False, 12184015188588704630166840951173610369), (True, 10),
    (False, 244069510085737795318741433574162152558), (True, 12),
    (False, 323192181166970452176657091215610012835), (True, 3),
    (False, 54987413548774892202339597319288979908), (True, 1),
    (False, 188464249325111726659006316264042378724), (True, 12),
    (False, 203519193020154494325862768284529027708), (True, 2),
    (False, 264545534918758135218862017936681673525), (True, 11),
    (False, 299473151557945623059666092046442743448), (True, 11),
    (False, 74172058031233248079533927351344968386), (True, 19),
    (False, 45807515709317926794440892816240465180), (True, 7),
    (False, 320237007850341771824579488417749358405), (True, 10),
    (False, 13393894478389502728489383936383600024), (True, 17),
    (False, 41636087033434465856019146023692575982), (True, 3),
    (False, 276326824168076873557471197078219047009), (True, 13),
    (False, 81834564130736865566080140888200061184), (True, 15),
    (False, 38483872872687541026504166391186185358), (True, 21),
    (False, 14831919536218229931445815452153068507), (True, 22),
    (False, 29854350290624093512578755313660069425), (True, 5),
    (False, 4826852406015389870763173788616587113), (True, 3),
    (False, 59340994840578512510599175995053855646), (True, 7),
    (False, 1335326558379227085037872712673477788), (True, 21),
    (False, 196247285544358895371116783716920464739), (True, 0),
    (False, 797913531521272175679220426294658943), (True, 13),
    (False, 59713993168961591712247839174099632471), (True, 13),
    (False, 230135902433119700419696497597298584218), (True, 8),
    (False, 323946840499537803427531439947183721618), (True, 3),
    (False, 23547048925847095983988671321314199893), (True, 17),
    (False, 268691737550969993310814726730106237893), (True, 3),
    (False, 24919525746121240976971495212888176), (True, 22),
    (False, 202869560020127810694851710091232066852), (True, 10),
    (False, 162142346239597410271877359318792242668), (True, 6),
    (False, 26477006777469470703150277860806799552), (True, 21),
    (False, 23243191704126735233399342580022680573), (True, 5),
    (False, 277603818244230730862581270063299067099), (True, 14),
    (False, 256128813827992752994583591398073720764), (True, 5),
    (False, 149551634151674833180167727985220784390), (True, 13),
    (False, 117081773744261344974074252679279566950), (True, 8),
    (False, 14061004481199141261936954176954500057),
    (False, 23863498418093166300118122611449722066), (True, 11),
    (False, 119298787001901163481536466983363763098), (True, 12),
    (False, 5639614645879013910319913585528254570),
    (False, 199577289869859037074451399413016949641),
    (False, 235132509414075258730456701539811514291), (True, 20),
    (False, 175539750658676365053323353846149954400),
    (False, 78643850463645088432220135871358449879),
    (False, 282524894370429633928966457376185362100),
    (False, 50259726910114310060430796161556933476), (True, 16),
    (False, 17612181022334671957248115373047939580),
    (False, 23861007421602340255625027334801514657), (True, 14),
    (False, 100322953376760521141336633143136532), (True, 10),
    (False, 35626226908001921689080048454647307043),
    (False, 57047756150709126218582712155136403455),
    (False, 16517965335661304254131691945663729569),
    (False, 17020400600348351337851273385078069068),
    (False, 33280314759152017161405157701139258902),
    (False, 236933623962974546103595660345239992332),
    (False, 216272303107149897433566002584817683117),
    (False, 304255806817512894523366420358599114226),
    (False, 1903585788508603823915061361871765335),
    (False, 126358182289393354866465591822050250296),
    (False, 235929123952522675296133143026901592435),
    (False, 19582085684674340735881846597275307692),
    (False, 218634727967278548655627803153699066333),
    (False, 28925657706056278860895513127378078539),
    (False, 288155182144857792548118754707150677330),
    (False, 238919645094100420687134960968490776982),
    (False, 227610512926035979414396420087088782137),
    (False, 53993384662255239598735709333390171930),
    (False, 100240770125511424892972672927594379406),
    (False, 308270512643980280497174291852486168811),
    (False, 4480012113305718029898243624646815553),
    (False, 46078827413193218704897804238266519026),
    (False, 149311822575935152584543869294721010846),
    (False, 59142257912757620417340821720220513619),
    (False, 83252467582708451326005879277208421150),
    (False, 185706193529259784741875778117443024585),
    (False, 107345490816352361368867437267407498242),
    (False, 15046886254013679479185451314112102721),
    (False, 25950731547438837234827083705821195632),
    (False, 92279515766537689830348535873334399909),
    (False, 84887897389378779571231468947588853634),
    (False, 252234594904783502546345830952635252705),
    (False, 46326776828449503040500470879277279101),
    (False, 129034692740583615985443827124874303331),
    (False, 125556151465122573244243384840832573998),
    (False, 99991103621342070725098083780278231784),
    (False, 59468363326009556837969421734800397807),
    (False, 27879703719843366840672200441867136747),
    (False, 129148355513217012911874104208527844532),
    (False, 231892440751061703128065364801613586816),
    (False, 13473726491260711663978090914590260218),
    (False, 84510878980111027555272839462420891),
    (False, 66911355841933209793221361628211030806),
    (False, 40081869915389820462361583228704260557),
    (False, 79128177157355624952232934063798274329),
    (False, 181831081457950178023516915404742274870),
    (False, 24178587066174238608124499412598507033),
    (False, 11586435813946875448495595288345164747),
    (False, 9336976739879212097757335347469574186),
    (False, 29634815025611373593091034348621701138),
    (False, 21032795605200841118579057225474871),
    (False, 181775187379631992939804362329499379724),
    (False, 43655138957157413837477371175380144956),
    (False, 3958631280481022892637393243850720103),
    (False, 216161689603697365609548269121164295887),
    (False, 132462219409802735119296359515832476360),
    (False, 281157260189101318630400033418817588553),
    (False, 21461706167566106790980355897516043237),
    (False, 125345973041262410228310938441009481604),
    (False, 28431039943044272991680082078315827274),
    (False, 39097251109194779488914236454300513448),
    (False, 42194559355059176861620464942585487657),
    (False, 81931519392956282014073874977576632384)] = (340282366920938371580142376284491612160, 170141183460469185790071188142245806080)"
  by code_simp

lemma P128_prime: "isPrime 340282366920938371580142376284491612161"
  by (rule proth_certificate [where k = 18446744073709546635 and e = 64 and a = 23, OF _ _ _ _ P128_certificate])
    simp_all

lemma P128_bitLength: "bitLength 340282366920938371580142376284491612161 = 128"
  using bitLength_eqI [of 340282366920938371580142376284491612161 127] by simp

lemma Q128_certificate:
  "certPow 340282366920921862260705240299662737409 17 1 0
   [(False, 0), (True, 0), (False, 0), (True, 0), (False, 0), (True, 0), (False, 0),
    (True, 0), (False, 0), (True, 0), (False, 57015597572641658656153860961235103496),
    (True, 1), (False, 309744493742061727174533181300417914794), (True, 10),
    (False, 93820080810049776927248598679371772432), (True, 10),
    (False, 229847899184380365690596962257837614), (True, 7),
    (False, 68088441075849345700401008942040543581), (True, 1),
    (False, 251388507391147140998310826861553358442), (True, 1),
    (False, 227134252636063745170607839829559756487), (True, 10),
    (False, 268972442961160503214062958061289779964), (True, 3),
    (False, 188194019946973804892272525033706249770), (True, 9),
    (False, 169710591331322128637655612033970994463), (True, 2),
    (False, 8875183821294029118983128735491423647), (True, 15),
    (False, 162984615144071709372848177439299259493), (True, 5),
    (False, 11469995526966383921427858223189785299), (True, 1),
    (False, 2110678976480082780468609239736480655), (True, 0),
    (False, 129739814438306419276365093024917389489), (True, 6),
    (False, 162345602078048210626843760032917722951), (True, 5),
    (False, 283051547395460927877900774729036466344), (True, 12),
    (False, 23061438963750726131281311963913630208), (True, 6),
    (False, 12247094515654102401472161953940231253), (True, 12),
    (False, 14420261646013008446532823105154306925), (True, 16),
    (False, 79747549522273685438413590103059905318), (True, 1),
    (False, 78929927902773634645760660788444414440), (True, 6),
    (False, 153856359492039586467102307687987667632), (True, 7),
    (False, 149143655887813939437610319028767614651), (True, 10),
    (False, 226850125250332935220258376898946566729), (True, 5),
    (False, 26962403563675310965581233189741950418), (True, 14),
    (False, 242372824164696284800122698758576582920), (True, 12),
    (False, 94843125546107896677951471574348378940), (True, 8),
    (False, 10313119698746303565764786622672624080), (True, 7),
    (False, 89953326567617016430341611052690385708), (True, 13),
    (False, 282576175107288673601064315790300430361), (True, 10),
    (False, 13926507569354948216536472886778176466), (True, 8),
    (False, 92739759943264773994416333693499533814), (True, 3),
    (False, 83689036964698392845213435208557141264), (True, 2),
    (False, 78915998493848662684929873394294119458), (True, 14),
    (False, 283357283137458017301104764525234721569), (True, 11),
    (False, 168607342731149606385719704474842538884), (True, 8),
    (False, 78012793478650962432075510371706126825), (True, 0),
    (False, 111914811997742155561929610520814965), (True, 15),
    (False, 224121444361936910304939681896106310805),
    (False, 88625396158314501658982902235647058360),
    (False, 268603792609083735219213108187221079915), (True, 16),
    (False, 228336634157803857019943347351608115340),
    (False, 168755493217272418671020565322305335171),
    (False, 52468363081777892456696089209569008061), (True, 7),
    (False, 78522670254056331648024649870361),
    (False, 121510581132046652534469713479371750345),
    (False, 32460710527836214444047726411030053321),
    (False, 6665116838354850032823437587959477143), (True, 3),
    (False, 295961147232188642287402844771261302120),
    (False, 312470001923372904175197079123128688137),
    (False, 338627265250793328039815185325613093451), (True, 13),
    (False, 167212691202508224698463749179781387258),
    (False, 280915702999506597161989209006882162343),
    (False, 287349536131943177861195377805465627026),
    (False, 93680224249774177038129534792071115997), (True, 14),
    (False, 145149833032476304991551343162099926367), (True, 2),
    (False, 77959783874610151457336444731467592732), (True, 13),
    (False, 89192362336730738442960874170535233782), (True, 13),
    (False, 247540206631415385456546886584896794538),
    (False, 218481545679858869690736433601809096494),
    (False, 72813810710605833574239843798524755933),
    (False, 46229715817334950441627550304362811600),
    (False, 69857011574174061305648477122504512951),
    (False, 40015714034505056127044865475640682716),
    (False, 26130924813046716800753377538326413521),
    (False, 39967305129160463691970571999968558986),
    (False, 144753074353876515782515519726958638951),
    (False, 337220659188207290789099688089448978148),
    (False, 218676237254693235884054185504637064715),
    (False, 186564196102622507946525767356634080762),
    (False, 217951238996445538657806148282596484176),
    (False, 247673789870065921811929033099626167539),
    (False, 6319159066109777322452734532641046327),
    (False, 6601608233177771119210932098120883850),
    (False, 122260191919530961842744198533998716488),
    (False, 200682454936647137877396524824169336265),
    (False, 53464655257382664881186633132848412049),
    (False, 257585252549340128149332494250338206375),
    (False, 1114545301043373305711816057480745586),
    (False, 584327138842370669236913807080371615),
    (False, 2124666512657441709251683467692855818),
    (False, 141060139447026043317242297024361702474),
    (False, 83314262586833219078236235027782893011),
    (False, 155908692017564810785520430243895536597),
    (False, 159215302973419505427942036395355197766),
    (False, 108638946518912595835109855913384773273),
    (False, 199055893691575105195055348585049592453),
    (False, 23696799320830680244201959621637158137),
    (False, 189546318088966180603405546235888708702),
    (False, 56184286266507069745723743596304357970),
    (False, 286267365658372380714033514864001595595),
    (False, 283505998438396984378510479391483738556),
    (False, 326570564267391782907534450755347841498),
    (False, 78712871967629680153776636783737531),
    (False, 418093855619819035258199187986784161),
    (False, 104033845894897229044806970785113659088),
    (False, 203710450034352647702192818643958740031),
    (False, 27011383649396378834924381178972173618),
    (False, 121851277103535368846901216458983630584),
    (False, 85242409217247287731480442716352662234),
    (False, 50983799633147120253702179630364822337),
    (False, 96293739437432893350529210332355306829),
    (False, 112120085007910056441505327717399479523),
    (False, 52767270094986939847863714940619667101),
    (False, 328292534664689596201251886769746844145),
    (False, 153778652517318714022799555382110066445),
    (False, 30887071782765747868727299977184152933),
    (False, 5322273250717994734231206516296785161),
    (False, 145828211654207093426536670113738760238),
    (False, 110939907507000388067733147735359758171),
    (False, 107935296754092867182727725378524557646),
    (False, 91395964815186291972548020660778685576),
    (False, 264424396841576306899686047434895406438),
    (False, 149693653494099798303491837533527561226),
    (False, 188253011814288847316566403140301095832),
    (False, 40581941214011611832843644220086933958),
    (False, 140218908874099072630699233110540855479),
    (False, 3048182308049178846564708110771558691),
    (False, 39183532037614513405803520563173639246),
    (False, 29757833321752796700460983434214276509),
    (False, 16551499947735311208041859221652127888)] = (340282366920921862260705240299662737408, 170141183460460931130352620149831368704)"
  by code_simp

lemma Q128_prime: "isPrime 340282366920921862260705240299662737409"
  by (rule proth_certificate [where k = 18446744073708651663 and e = 64 and a = 17, OF _ _ _ _ Q128_certificate])
    simp_all

lemma Q128_bitLength: "bitLength 340282366920921862260705240299662737409 = 128"
  using bitLength_eqI [of 340282366920921862260705240299662737409 127] by simp

lemma N256_bitLength: "bitLength 115792089237310515060789174599642939037870450670800931111793302694064814030849 = 256"
  using bitLength_eqI [of 115792089237310515060789174599642939037870450670800931111793302694064814030849 255] by simp

lemma PQ_gcd: "gcd (340282366920938371580142376284491612160::int) 340282366920921862260705240299662737408 = 55340232221128654848"
  by (rule gcd_certificate [where a' = 6148914691236515545 and b' = 6148914691236217221 and u = "- 1296403532182071689" and v = "1296403532182134586"]) simp_all

lemma PQ_carmichael: "carmichael 340282366920938371580142376284491612161 340282366920921862260705240299662737409 = 2092367245128790943584120730254287080387157156582245007360"
  by (rule carmichael_value [where g = 55340232221128654848]) (simp_all add: PQ_gcd)

lemma key256:
  "generateKeyPair 256 [340282366920938371580142376284491612161, 340282366920921862260705240299662737409] =
     Inr (newPublicKey 115792089237310515060789174599642939037870450670800931111793302694064814030849 115792089237310515060789174599642939037870450670800931111793302694064814030850,
          \<lparr>priv_lambda = 2092367245128790943584120730254287080387157156582245007360,
           priv_mu = 78796421439255081821588695451501807617192526374758493028754436933292487275520\<rparr>)"
proof -
  have g: "gcd (340282366920938371580142376284491612161 * 340282366920921862260705240299662737409) ((340282366920938371580142376284491612161 - 1) * (340282366920921862260705240299662737409 - 1)) = (1::int)"
    by (rule equal_length_gcd [OF P128_prime Q128_prime P128_bitLength Q128_bitLength]) simp
  have m: "(carmichael 340282366920938371580142376284491612161 340282366920921862260705240299662737409 * 78796421439255081821588695451501807617192526374758493028754436933292487275520) mod (340282366920938371580142376284491612161 * 340282366920921862260705240299662737409) = 1"
    unfolding PQ_carmichael
    by (rule mod_one_certificate [where t = 1423854188475395629428040633647161050680942415317829681151]) simp_all
  have "deriveKeys 340282366920938371580142376284491612161 340282366920921862260705240299662737409 =
     Inr (newPublicKey 115792089237310515060789174599642939037870450670800931111793302694064814030849 115792089237310515060789174599642939037870450670800931111793302694064814030850,
          \<lparr>priv_lambda = 2092367245128790943584120730254287080387157156582245007360,
           priv_mu = 78796421439255081821588695451501807617192526374758493028754436933292487275520\<rparr>)"
    using deriveKeys_value [OF P128_prime Q128_prime _ g _ _ m] by (simp add: PQ_carmichael)
  then show ?thesis
    by (simp add: generateKeyPair_def N256_bitLength signed_modulo_int_def)
qed

section \<open>Encryption roundtrip\<close>

text \<open>
  C1. Let \<^verbatim>\<open>generateKeyPair(bits)\<close> return \<open>(pub, priv)\<close> while \<^verbatim>\<open>generateRandomPrime\<close> yields
  primes of \<open>bits / 2\<close> bits. Then \<open>bits \<ge> 160\<close> and \<open>bits mod 8 = 0\<close>, and for every plaintext
  \<open>0 \<le> m < n\<close>, with a sampler of \<open>r\<close> that returns positive numbers coprime to \<open>n\<close> (and
  eventually one below \<open>n\<close>), \<^verbatim>\<open>encrypt\<close> returns a ciphertext that \<^verbatim>\<open>decrypt\<close> maps back to \<open>m\<close>.
\<close>

theorem decrypt_encrypt:
  assumes "generateKeyPair bits primes = Inr (pub, priv)"
    and "\<forall>p\<in>set primes. isPrime p \<and> bitLength p = bits div 2"
    and "0 \<le> m" "m < pub_n pub"
    and "\<forall>r\<in>set rs. 0 < r \<and> coprime r (pub_n pub)" "\<exists>r\<in>set rs. r < pub_n pub"
  shows "160 \<le> bits \<and> bits mod 8 = 0 \<and>
         (\<exists>c. encrypt m pub rs = Inr c \<and> decrypt c pub priv = Inr m)"
proof -
  have g: "160 \<le> bits" "\<not> 0 < bits smod 8"
    using assms(1) by (auto simp: generateKeyPair_def split: if_splits)
  have "bits smod 8 = bits mod 8" using g(1) by (simp add: smod_nonneg)
  moreover have "0 \<le> bits mod 8" by simp
  ultimately have "bits mod 8 = 0" using g(2) by linarith
  then have b: "160 \<le> bits" "bits mod 8 = 0" using g(1) by simp_all
  obtain p q where "validKeyPair p q pub priv"
    using generateKeyPair_valid [OF assms(1,2)] by blast
  then show ?thesis using decrypt_encrypt_valid assms(3-6) b by blast
qed

theorem decrypt_encrypt_witness:
  "generateKeyPair 256 [340282366920938371580142376284491612161, 340282366920921862260705240299662737409] =
     Inr ((newPublicKey 115792089237310515060789174599642939037870450670800931111793302694064814030849
        115792089237310515060789174599642939037870450670800931111793302694064814030850),
          \<lparr>priv_lambda = 2092367245128790943584120730254287080387157156582245007360,
      priv_mu = 78796421439255081821588695451501807617192526374758493028754436933292487275520\<rparr>) \<and>
   isPrime 340282366920938371580142376284491612161 \<and> bitLength 340282366920938371580142376284491612161 = 128 \<and>
   isPrime 340282366920921862260705240299662737409 \<and> bitLength 340282366920921862260705240299662737409 = 128 \<and>
   (\<exists>c. encrypt 42 (newPublicKey 115792089237310515060789174599642939037870450670800931111793302694064814030849
        115792089237310515060789174599642939037870450670800931111793302694064814030850) [2] = Inr c \<and>
      decrypt c (newPublicKey 115792089237310515060789174599642939037870450670800931111793302694064814030849
        115792089237310515060789174599642939037870450670800931111793302694064814030850)
        \<lparr>priv_lambda = 2092367245128790943584120730254287080387157156582245007360,
      priv_mu = 78796421439255081821588695451501807617192526374758493028754436933292487275520\<rparr> = Inr 42)"
proof -
  have primes: "\<forall>p\<in>set [340282366920938371580142376284491612161, 340282366920921862260705240299662737409]. isPrime p \<and> bitLength p = 256 div 2"
    using P128_prime Q128_prime P128_bitLength Q128_bitLength by simp
  have "coprime 2 (115792089237310515060789174599642939037870450670800931111793302694064814030849::int)" by (simp add: coprime_left_2_iff_odd)
  then have rs: "\<forall>r\<in>set [2]. 0 < r \<and> coprime r (pub_n (newPublicKey 115792089237310515060789174599642939037870450670800931111793302694064814030849
        115792089237310515060789174599642939037870450670800931111793302694064814030850))"
    by simp
  have lt: "\<exists>r\<in>set [2]. r < pub_n (newPublicKey 115792089237310515060789174599642939037870450670800931111793302694064814030849
        115792089237310515060789174599642939037870450670800931111793302694064814030850)"
    by simp
  show ?thesis
    using decrypt_encrypt [OF key256 primes _ _ rs lt, of 42]
      key256 P128_prime Q128_prime P128_bitLength Q128_bitLength
    by simp
qed

section \<open>Signature roundtrip\<close>

text \<open>
  C7. For a key pair generated with \<open>bits \<ge> 256\<close> and a message whose hash \<open>H(m)\<close> lies in
  \<open>[0, 2\<^sup>2\<^sup>5\<^sup>6)\<close> and is coprime to \<open>n\<close>: \<open>H(m) < n\<^sup>2\<close>, \<^verbatim>\<open>createSignature\<close> returns a signature,
  and \<^verbatim>\<open>verifySignature\<close> accepts it.
\<close>

theorem signature_roundtrip:
  assumes "generateKeyPair bits primes = Inr (pub, priv)"
    and "\<forall>p\<in>set primes. isPrime p \<and> bitLength p = bits div 2"
    and "256 \<le> bits"
    and "0 \<le> hashInt m" "hashInt m < 2 ^ 256" "coprime (hashInt m) (pub_n pub)"
  shows "hashInt m < pub_nSquared pub \<and>
         (\<exists>sig. createSignature hashInt m pub priv = Inr sig \<and>
            verifySignature hashInt m sig pub = Inr True)"
proof -
  obtain p q where v: "validKeyPair p q pub priv" and b: "bitLength (p * q) = bits"
    using generateKeyPair_valid [OF assms(1,2)] by blast
  have lt: "hashInt m < pub_nSquared pub"
    using generated_modulus_large [OF v b assms(3)] assms(5) by simp
  show ?thesis
    using signature_valid [where hashInt = hashInt and m = m, OF v assms(4) lt assms(6)] lt
    by simp
qed


theorem signature_roundtrip_witness:
  "generateKeyPair 256 [340282366920938371580142376284491612161, 340282366920921862260705240299662737409] =
     Inr ((newPublicKey 115792089237310515060789174599642939037870450670800931111793302694064814030849
        115792089237310515060789174599642939037870450670800931111793302694064814030850),
          \<lparr>priv_lambda = 2092367245128790943584120730254287080387157156582245007360,
      priv_mu = 78796421439255081821588695451501807617192526374758493028754436933292487275520\<rparr>) \<and>
   isPrime 340282366920938371580142376284491612161 \<and> bitLength 340282366920938371580142376284491612161 = 128 \<and>
   isPrime 340282366920921862260705240299662737409 \<and> bitLength 340282366920921862260705240299662737409 = 128 \<and>
   (\<exists>sig. createSignature (\<lambda>x. 2 ^ nat x) 5 (newPublicKey 115792089237310515060789174599642939037870450670800931111793302694064814030849
        115792089237310515060789174599642939037870450670800931111793302694064814030850)
        \<lparr>priv_lambda = 2092367245128790943584120730254287080387157156582245007360,
      priv_mu = 78796421439255081821588695451501807617192526374758493028754436933292487275520\<rparr> = Inr sig \<and>
      verifySignature (\<lambda>x. 2 ^ nat x) 5 sig (newPublicKey 115792089237310515060789174599642939037870450670800931111793302694064814030849
        115792089237310515060789174599642939037870450670800931111793302694064814030850) = Inr True)"
proof -
  have primes: "\<forall>p\<in>set [340282366920938371580142376284491612161, 340282366920921862260705240299662737409]. isPrime p \<and> bitLength p = 256 div 2"
    using P128_prime Q128_prime P128_bitLength Q128_bitLength by simp
  have "coprime 2 (115792089237310515060789174599642939037870450670800931111793302694064814030849::int)" by (simp add: coprime_left_2_iff_odd)
  then have "coprime (2 ^ 5) (115792089237310515060789174599642939037870450670800931111793302694064814030849::int)" by (rule coprime_power_left_iff [THEN iffD2, OF disjI1])
  then have cop: "coprime ((\<lambda>x. 2 ^ nat x) (5::int)) (pub_n (newPublicKey 115792089237310515060789174599642939037870450670800931111793302694064814030849
        115792089237310515060789174599642939037870450670800931111793302694064814030850))"
    by simp
  show ?thesis
    using signature_roundtrip [where hashInt = "\<lambda>x. 2 ^ nat x" and m = 5, OF key256 primes _ _ _ cop]
      key256 P128_prime Q128_prime P128_bitLength Q128_bitLength
    by simp
qed

section \<open>Homomorphic addition\<close>

text \<open>
  C2. For a valid key pair, plaintexts \<open>m1, m2\<close> in \<open>[0, n)\<close> and samplers that return
  positive numbers coprime to \<open>n\<close> (and eventually one below \<open>n\<close>), both encryptions
  succeed, and the product of the ciphertexts decrypts to \<open>(m1 + m2) mod n\<close>.
\<close>

theorem addEncrypted_decrypt:
  assumes "validKeyPair p q pub priv"
    and "0 \<le> m1" "m1 < pub_n pub" "0 \<le> m2" "m2 < pub_n pub"
    and "\<forall>r\<in>set rs1. 0 < r \<and> coprime r (pub_n pub)" "\<exists>r\<in>set rs1. r < pub_n pub"
    and "\<forall>r\<in>set rs2. 0 < r \<and> coprime r (pub_n pub)" "\<exists>r\<in>set rs2. r < pub_n pub"
  shows "\<exists>c1 c2 c. encrypt m1 pub rs1 = Inr c1 \<and> encrypt m2 pub rs2 = Inr c2 \<and>
           addEncrypted c1 c2 pub = Inr c \<and>
           decrypt c pub priv = Inr ((m1 + m2) mod pub_n pub)"
proof -
  define n where "n = p * q"
  let ?N = "n * n"
  let ?l = "carmichael p q"
  obtain mu where pub: "pub = newPublicKey n (n + 1)"
    and priv: "priv = \<lparr>priv_lambda = ?l, priv_mu = mu\<rparr>"
    and n1: "1 < n" and l0: "0 < ?l" and mu: "0 \<le> mu" "(?l * mu) mod n = 1"
    using validKeyPair_facts [OF assms(1)] unfolding n_def by blast
  have pr: "isPrime p" "isPrime q" "p \<noteq> q"
    using assms(1) by (simp_all add: validKeyPair_def)
  have pn: "pub_n pub = n" by (simp add: pub)
  have big: "1 < ?N" by (rule square_gt1 [OF n1])
  have h1: "m1 < n" "\<forall>r\<in>set rs1. 0 < r \<and> coprime r n" "\<exists>r\<in>set rs1. r < n"
    using assms(3,6,7) by (simp_all add: pn)
  have h2: "m2 < n" "\<forall>r\<in>set rs2. 0 < r \<and> coprime r n" "\<exists>r\<in>set rs2. r < n"
    using assms(5,8,9) by (simp_all add: pn)
  obtain r1 where e1: "encrypt m1 pub rs1 = Inr (((1 + n * m1) * r1 ^ nat n) mod ?N)"
    and c1: "coprime r1 n"
    using encrypt_form [OF n1 assms(2) h1, of "n + 1"] unfolding pub by blast
  obtain r2 where e2: "encrypt m2 pub rs2 = Inr (((1 + n * m2) * r2 ^ nat n) mod ?N)"
    and c2: "coprime r2 n"
    using encrypt_form [OF n1 assms(4) h2, of "n + 1"] unfolding pub by blast
  let ?c1 = "((1 + n * m1) * r1 ^ nat n) mod ?N"
  let ?c2 = "((1 + n * m2) * r2 ^ nat n) mod ?N"
  let ?c = "(?c1 * ?c2) mod ?N"
  have add: "addEncrypted ?c1 ?c2 pub = Inr ?c"
    using big by (simp add: addEncrypted_def pub big_mod_nonneg)
  have "?c mod ?N = (((1 + n * m1) * r1 ^ nat n) * ((1 + n * m2) * r2 ^ nat n)) mod ?N"
    by (simp add: mod_mult_eq)
  also have "\<dots> = ((1 + n * (m1 + m2)) * (r1 * r2) ^ nat n) mod ?N"
  proof (rule mod_eq_dvd_iff [THEN iffD2])
    have eq: "((1 + n * m1) * r1 ^ nat n) * ((1 + n * m2) * r2 ^ nat n) -
          (1 + n * (m1 + m2)) * (r1 * r2) ^ nat n = ?N * (m1 * m2 * (r1 * r2) ^ nat n)"
      by (simp add: algebra_simps power_mult_distrib)
    show "?N dvd ((1 + n * m1) * r1 ^ nat n) * ((1 + n * m2) * r2 ^ nat n) -
          (1 + n * (m1 + m2)) * (r1 * r2) ^ nat n"
      by (subst eq) (rule dvd_triv_left)
  qed
  finally have form: "?c mod ?N = ((1 + n * (m1 + m2)) * (r1 * r2) ^ nat n) mod ?N" .
  have "coprime (r1 * r2) (p * q)" using c1 c2 unfolding n_def by simp
  then have s: "(r1 * r2) ^ nat ?l mod n = 1"
    unfolding n_def by (rule carmichael_pq [OF pr])
  have "decrypt ?c pub priv = Inr ((m1 + m2) mod n)"
    unfolding pub priv
    using big l0 by (intro decrypt_general [OF n1 _ mu(2) mu(1) _ _ form s]) simp_all
  then show ?thesis using e1 e2 add pn by blast
qed

theorem addEncrypted_decrypt_witness:
  "validKeyPair 3 5 (newPublicKey 15 16) \<lparr>priv_lambda = 4, priv_mu = 4\<rparr> \<and>
   (\<exists>c1 c2 c. encrypt 3 (newPublicKey 15 16) [17, 2] = Inr c1 \<and>
     encrypt 4 (newPublicKey 15 16) [7] = Inr c2 \<and>
     addEncrypted c1 c2 (newPublicKey 15 16) = Inr c \<and>
     decrypt c (newPublicKey 15 16) \<lparr>priv_lambda = 4, priv_mu = 4\<rparr> = Inr 7)"
  using addEncrypted_decrypt [OF small_key, of 3 4 "[17, 2]" "[7]"] small_key small_coprime
  by simp

section \<open>Ciphertext range\<close>

text \<open>
  C10. For a public key \<open>newPublicKey n g\<close> with \<open>1 < n\<close> and \<open>0 \<le> g\<close> (a key of the data model
  has \<open>n = p q\<close> and \<open>g = n + 1\<close>), ciphertexts \<open>c, c1, c2\<close> in \<open>[0, n\<^sup>2)\<close> and a scalar
  \<open>k \<ge> 0\<close>, each of \<^verbatim>\<open>addEncrypted\<close>, \<^verbatim>\<open>addScalar\<close> and \<^verbatim>\<open>mulScalar\<close> returns a value in
  \<open>[0, n\<^sup>2)\<close>.
\<close>

theorem homomorphic_ops_in_range: 
  assumes "1 < n" "0 \<le> g" "pub = newPublicKey n g"
    and "0 \<le> c" "c < pub_nSquared pub" "0 \<le> c1" "c1 < pub_nSquared pub"
    and "0 \<le> c2" "c2 < pub_nSquared pub" "0 \<le> k"
  shows "(\<exists>x. addEncrypted c1 c2 pub = Inr x \<and> 0 \<le> x \<and> x < pub_nSquared pub) \<and>
         (\<exists>y. addScalar c k pub = Inr y \<and> 0 \<le> y \<and> y < pub_nSquared pub) \<and>
         (\<exists>z. mulScalar c k pub = Inr z \<and> 0 \<le> z \<and> z < pub_nSquared pub)"
proof -
  have sq: "pub_nSquared pub = n * n" "pub_g pub = g"
    using assms(3) by (simp_all add: newPublicKey_def)
  have "1 * 1 < n * n" using assms(1) by (intro mult_strict_mono) simp_all
  then have big: "1 < n * n" by simp
  have a: "\<exists>x. addEncrypted c1 c2 pub = Inr x \<and> 0 \<le> x \<and> x < pub_nSquared pub"
    using big assms(6,8) by (simp add: addEncrypted_def sq big_mod_nonneg)
  obtain gk where gk: "modPow g k (n * n) = Inr gk" "0 \<le> gk"
    using modPow_range [OF big assms(2) assms(10)] by blast
  have b: "\<exists>y. addScalar c k pub = Inr y \<and> 0 \<le> y \<and> y < pub_nSquared pub"
    using big assms(4) gk by (simp add: addScalar_def sq big_mod_nonneg)
  have c: "\<exists>z. mulScalar c k pub = Inr z \<and> 0 \<le> z \<and> z < pub_nSquared pub"
    using modPow_range [OF big assms(4) assms(10)] by (simp add: mulScalar_def sq)
  from a b c show ?thesis by blast
qed

theorem homomorphic_ops_in_range_witness:
  "(\<exists>x. addEncrypted 7 8 (newPublicKey 15 16) = Inr x \<and> 0 \<le> x \<and> x < 225) \<and>
   (\<exists>y. addScalar 4 3 (newPublicKey 15 16) = Inr y \<and> 0 \<le> y \<and> y < 225) \<and>
   (\<exists>z. mulScalar 4 3 (newPublicKey 15 16) = Inr z \<and> 0 \<le> z \<and> z < 225)"
  using homomorphic_ops_in_range [of 15 16 "newPublicKey 15 16" 4 7 8 3] by simp

section \<open>Plaintext validation of encrypt\<close>

text \<open>
  C6, as amended. Once the sampling loop has drawn an \<open>r < n\<close>, \<^verbatim>\<open>encrypt\<close> fails with
  \<open>BadPlaintext\<close> for every \<open>m \<ge> n\<close> and returns a ciphertext for every \<open>m < n\<close>, a
  negative \<open>m\<close> included: the only check is \<^verbatim>\<open>m.greaterOrEquals(pub.n)\<close>.
\<close>

theorem encrypt_BadPlaintext:
  assumes "0 < n" and "\<exists>r\<in>set rs. r < n"
  shows "(m \<ge> n \<longrightarrow> encrypt m (newPublicKey n g) rs = Inl BadPlaintext) \<and>
         (m < n \<longrightarrow> (\<exists>c. encrypt m (newPublicKey n g) rs = Inr c))"
proof -
  obtain r where r: "drawBelow n rs = Inr r"
    using drawBelow_Inr [OF assms(2)] by blast
  have nz: "n * n \<noteq> 0" using assms(1) by simp
  obtain rn where rn: "modPow r n (n * n) = Inr rn"
    using modPow_nonneg_exponent [OF nz, of n r] assms(1) by auto
  show ?thesis
    using r rn nz
    by (simp add: encrypt_def encryptWithoutR_def encryptWithR_def big_mod_def)
qed

theorem encrypt_BadPlaintext_witness:
  "encrypt 20 (newPublicKey 15 16) [17, 2] = Inl BadPlaintext \<and>
   (\<exists>c. encrypt (- 1) (newPublicKey 15 16) [17, 2] = Inr c)"
  using encrypt_BadPlaintext [of 15 "[17, 2]" 20 16]
    encrypt_BadPlaintext [of 15 "[17, 2]" "- 1" 16] by simp

text \<open>The claim as stated fails at \<open>m = -1\<close>: a (negative) ciphertext is returned.\<close>

theorem encrypt_negative_counterexample:
  "encrypt (- 1) (newPublicKey 15 16) [1] = Inr (- 14)"
  by (simp add: encrypt_def encryptWithoutR_def encryptWithR_def big_mod_def modPow_def
      signed_modulo_int_def modPow_loop.simps signed_divide_int_def)

section \<open>Length check of verifyZkp\<close>

text \<open>
  C4, as amended. \<^verbatim>\<open>verifyZkp\<close> fails with \<open>MalformedCommitment\<close> exactly when
  \<open>|a| + |e| + |z|\<close> differs from \<open>3k\<close>, \<open>k\<close> the number of valid messages.
\<close>

theorem verifyZkp_MalformedCommitment_iff:
  "verifyZkp hashArr c valid commitment pub = Inl MalformedCommitment \<longleftrightarrow>
   length (zkp_a commitment) + length (zkp_e commitment) + length (zkp_z commitment)
     \<noteq> 3 * length valid"
proof (cases "length valid * 3 =
    length (zkp_a commitment) + length (zkp_e commitment) + length (zkp_z commitment)")
  case True
  have "verifyZkp hashArr c valid commitment pub \<noteq> Inl MalformedCommitment"
    using True
    by (auto simp: verifyZkp_def Let_def bindE_eq_Inl verifyZkp_loop_error split: if_splits)
  then show ?thesis using True by simp
next
  case False
  then show ?thesis by (auto simp: verifyZkp_def)
qed

theorem verifyZkp_MalformedCommitment_iff_witness:
  "verifyZkp (\<lambda>a. 5) 1 [1]
     \<lparr>zkp_a = [Some 1, Some 1], zkp_e = [Some 0, Some 0], zkp_z = [Some 1, Some 1]\<rparr>
     (newPublicKey 15 16) = Inl MalformedCommitment"
  using verifyZkp_MalformedCommitment_iff [of "\<lambda>a. 5" 1 "[1]"
      "\<lparr>zkp_a = [Some 1, Some 1], zkp_e = [Some 0, Some 0], zkp_z = [Some 1, Some 1]\<rparr>"
      "newPublicKey 15 16"]
  by simp

text \<open>
  The claim as stated fails for arrays of lengths 1, 2 and 0 with \<open>k = 1\<close>: the sum is
  \<open>3k\<close>, and the verifier answers \<open>false\<close> instead of raising.
\<close>

theorem verifyZkp_unequal_lengths_counterexample:
  "length [Some (0::int), Some 0] \<noteq> length [1::int] \<and>
   verifyZkp (\<lambda>a. 5) 1 [1] \<lparr>zkp_a = [Some 1], zkp_e = [Some 0, Some 0], zkp_z = []\<rparr>
     (newPublicKey 15 16) = Inr False"
  by (simp add: verifyZkp_def reduce_add_def List.map_filter_def big_mod_def hashMod_def
      signed_modulo_int_def)

section \<open>createZkp on a singleton valid set\<close>

text \<open>
  C5. With the valid set \<open>[m]\<close>, \<^verbatim>\<open>createZkp\<close> never returns a commitment and never raises
  \<open>NotInValidSet\<close>; for a key \<open>newPublicKey n (n + 1)\<close> with \<open>1 < n\<close>, once an \<open>\<omega> < n\<close> has
  been drawn, it raises the \<open>TypeError\<close> of \<^verbatim>\<open>reduce\<close> on the array \<open>e\<close>, which holds no entry.
\<close>

theorem createZkp_singleton_TypeError:
  "(\<forall>commitment. createZkp hashArr omegas rnd_e rnd_z m c r [m] pub \<noteq> Inr commitment) \<and>
   createZkp hashArr omegas rnd_e rnd_z m c r [m] pub \<noteq> Inl NotInValidSet \<and>
   (1 < n \<and> pub = newPublicKey n (n + 1) \<and> (\<exists>omega\<in>set omegas. omega < n) \<longrightarrow>
      createZkp hashArr omegas rnd_e rnd_z m c r [m] pub = Inl TypeError)"
proof (intro conjI allI impI)
  fix commitment
  show "createZkp hashArr omegas rnd_e rnd_z m c r [m] pub \<noteq> Inr commitment"
    by (auto simp: createZkp_def bindE_def newZkpCommitment_def reduce_add_def
        List.map_filter_def split: sum.splits)
next
  have "drawBelow (pub_n pub) omegas \<noteq> Inl NotInValidSet"
    using drawBelow_cases [of "pub_n pub" omegas] by auto
  then show "createZkp hashArr omegas rnd_e rnd_z m c r [m] pub \<noteq> Inl NotInValidSet"
    by (auto simp: createZkp_def bindE_def newZkpCommitment_def reduce_add_def
        List.map_filter_def split: sum.splits)
next
  assume h: "1 < n \<and> pub = newPublicKey n (n + 1) \<and> (\<exists>omega\<in>set omegas. omega < n)"
  then have n: "1 < n" and pub: "pub = newPublicKey n (n + 1)" by simp_all
  obtain omega where om: "drawBelow n omegas = Inr omega"
    using h drawBelow_Inr [of omegas n] by blast
  have "1 * 1 < n * n" using n by (intro mult_strict_mono) simp_all
  then have big: "1 < n * n" by simp
  obtain gmi where gmi: "modPow (n + 1) m (n * n) = Inr gmi" "0 \<le> gmi" "coprime gmi (n * n)"
    using modPow_coprime [OF big _ coprime_succ_square [OF n], of m] n by auto
  obtain gi where gi: "modInv gmi (n * n) = Inr gi"
    using modInv_correct [OF big gmi(2,3)] by blast
  obtain ai where ai: "modPow omega n (n * n) = Inr ai"
    using modPow_nonneg_exponent [of "n * n" n omega] n by auto
  show "createZkp hashArr omegas rnd_e rnd_z m c r [m] pub = Inl TypeError"
    using n by (simp add: createZkp_def pub om gmi(1) gi ai big_mod_def
        newZkpCommitment_def reduce_add_def List.map_filter_def)
qed

theorem createZkp_singleton_TypeError_witness:
  "createZkp (\<lambda>a. 5) [17, 2] (\<lambda>i. 3) (\<lambda>i. 4) 7 112 1 [7] (newPublicKey 15 16) = Inl TypeError"
  using createZkp_singleton_TypeError [of "\<lambda>a. 5" "[17, 2]" "\<lambda>i. 3" "\<lambda>i. 4" 7 112 1 "newPublicKey 15 16" 15] by simp

section \<open>Completeness of the zero-knowledge proof\<close>

text \<open>
  For a key \<open>newPublicKey n (n + 1)\<close>, a ciphertext \<open>c\<close> of \<open>m\<close> made with \<open>r\<close>, and a valid
  set of at least two messages in which \<open>m\<close> occurs exactly once, the prover returns a
  commitment, and the verifier accepts it. The samplers return non-negative numbers
  and the hash a value in \<open>[0, 2\<^sup>2\<^sup>5\<^sup>6)\<close>.
\<close>

lemma bindE_assoc: "bindE (bindE x f) g = bindE x (\<lambda>v. bindE (f v) g)"
  by (cases x) simp_all

lemma createZkp_loop_Cons:
  "createZkp_loop rnd_e rnd_z omega m c pub i (mi # vs) (commitment, mk) =
     (if mi \<noteq> m then
        bindE (simulateClause c pub mi (rnd_e i) (rnd_z i)) (\<lambda>ai.
          createZkp_loop rnd_e rnd_z omega m c pub (Suc i) vs
            (commitment\<lparr>zkp_e := (zkp_e commitment)[i := Some (rnd_e i)],
                         zkp_z := (zkp_z commitment)[i := Some (rnd_z i)],
                         zkp_a := (zkp_a commitment)[i := Some ai]\<rparr>, mk))
      else
        bindE (zkp_u c pub mi) (\<lambda>ui.
        bindE (modPow omega (pub_n pub) (pub_nSquared pub)) (\<lambda>ai.
          createZkp_loop rnd_e rnd_z omega m c pub (Suc i) vs
            (commitment\<lparr>zkp_a := (zkp_a commitment)[i := Some ai]\<rparr>, int i))))"
  by (simp add: simulateClause_def zkp_u_def bindE_assoc Let_def)

lemma verifyZkp_loop_Cons:
  assumes "elemAt (zkp_z commitment) i = Some zi" "elemAt (zkp_e commitment) i = Some ei"
    "elemAt (zkp_a commitment) i = Some ai" "verifyClause c pub mi zi ei ai = Inr True"
  shows "verifyZkp_loop c commitment pub i (mi # vs) =
         verifyZkp_loop c commitment pub (Suc i) vs"
  using assms
  by (auto simp: verifyClause_def zkp_u_def bindE_def split: sum.splits)

lemma verifyZkp_loop_True:
  "(\<And>j. j < length vs \<Longrightarrow>
      \<exists>zi ei ai. elemAt (zkp_z commitment) (i + j) = Some zi \<and>
        elemAt (zkp_e commitment) (i + j) = Some ei \<and>
        elemAt (zkp_a commitment) (i + j) = Some ai \<and>
        verifyClause c pub (vs ! j) zi ei ai = Inr True) \<Longrightarrow>
   verifyZkp_loop c commitment pub i vs = Inr True"
proof (induction vs arbitrary: i)
  case Nil
  then show ?case by simp
next
  case (Cons mi vs)
  obtain zi ei ai where h: "elemAt (zkp_z commitment) i = Some zi"
      "elemAt (zkp_e commitment) i = Some ei" "elemAt (zkp_a commitment) i = Some ai"
      "verifyClause c pub mi zi ei ai = Inr True"
    using Cons.prems [of 0] by auto
  have "verifyZkp_loop c commitment pub (Suc i) vs = Inr True"
  proof (rule Cons.IH)
    fix j assume "j < length vs"
    then show "\<exists>zi ei ai. elemAt (zkp_z commitment) (Suc i + j) = Some zi \<and>
        elemAt (zkp_e commitment) (Suc i + j) = Some ei \<and>
        elemAt (zkp_a commitment) (Suc i + j) = Some ai \<and>
        verifyClause c pub (vs ! j) zi ei ai = Inr True"
      using Cons.prems [of "Suc j"] by simp
  qed
  then show ?case using verifyZkp_loop_Cons [OF h] by simp
qed


lemma zkp_u_ok:
  assumes "1 < n" "0 \<le> c" "coprime c n"
  shows "\<exists>ui. zkp_u c (newPublicKey n (n + 1)) mi = Inr ui \<and> 0 \<le> ui \<and> ui < n * n \<and>
           coprime ui (n * n)"
proof -
  let ?N = "n * n"
  have big: "1 < ?N" by (rule square_gt1 [OF assms(1)])
  obtain x where x: "modPow (n + 1) mi ?N = Inr x" "0 \<le> x" "coprime x ?N"
    using modPow_coprime [OF big _ coprime_succ_square [OF assms(1)], of mi] assms(1) by auto
  obtain y where y: "modInv x ?N = Inr y" "0 \<le> y" "(x * y) mod ?N = 1"
    using modInv_correct [OF big x(2,3)] by blast
  have "coprime ((x * y) mod ?N) ?N" by (simp add: y(3))
  then have "coprime (x * y) ?N" using big by (simp only: coprime_mod_left_iff)
  then have cy: "coprime y ?N" by simp
  have "coprime c ?N" using assms(3) by simp
  then have "coprime (c * y) ?N" using cy by simp
  then have cu: "coprime ((c * y) mod ?N) ?N" using big by (rule coprime_mod_self)
  have "big_mod (c * y) ?N = Inr ((c * y) mod ?N)"
    using big assms(2) y(2) by (simp add: big_mod_nonneg)
  then have "zkp_u c (newPublicKey n (n + 1)) mi = Inr ((c * y) mod ?N)"
    by (simp add: zkp_u_def x(1) y(1))
  moreover have "0 \<le> (c * y) mod ?N" "(c * y) mod ?N < ?N" using big by simp_all
  ultimately show ?thesis using cu by blast
qed

lemma zkp_u_real:
  assumes "1 < n" "0 \<le> m" "c = ((1 + n * m) * r ^ nat n) mod (n * n)"
  shows "zkp_u c (newPublicKey n (n + 1)) m = Inr (r ^ nat n mod (n * n))"
proof -
  let ?N = "n * n"
  have big: "1 < ?N" by (rule square_gt1 [OF assms(1)])
  define x where "x = (n + 1) ^ nat m mod ?N"
  have x1: "modPow (n + 1) m ?N = Inr x"
    using big assms(1,2) by (simp add: modPow_correct x_def)
  have "coprime ((n + 1) ^ nat m) ?N" using coprime_succ_square [OF assms(1)] by simp
  then have cx: "coprime x ?N" unfolding x_def using big by (rule coprime_mod_self)
  have x0: "0 \<le> x" using big by (simp add: x_def)
  obtain y where y: "modInv x ?N = Inr y" "0 \<le> y" "(x * y) mod ?N = 1"
    using modInv_correct [OF big x0 cx] by blast
  have "x = 1 + n * (int (nat m) mod n)"
    unfolding x_def by (rule succ_power_mod_square [OF assms(1)])
  also have "\<dots> = (1 + n * m) mod ?N"
    using assms(2) by (simp add: mod_square_form [OF assms(1)])
  finally have xm: "x = (1 + n * m) mod ?N" .
  have c0: "0 \<le> c" using big by (simp add: assms(3))
  have "(c * y) mod ?N = (((1 + n * m) * r ^ nat n) * y) mod ?N"
    unfolding assms(3) by (rule mod_mult_left_eq)
  also have "\<dots> = (r ^ nat n * ((1 + n * m) * y)) mod ?N"
    by (simp add: mult.assoc mult.left_commute mult.commute)
  also have "\<dots> = (r ^ nat n * (((1 + n * m) * y) mod ?N)) mod ?N"
    by (rule mod_mult_right_eq [symmetric])
  also have "((1 + n * m) * y) mod ?N = (x * y) mod ?N"
    unfolding xm by (rule mod_mult_left_eq [symmetric])
  finally have "(c * y) mod ?N = r ^ nat n mod ?N" by (simp add: y(3))
  moreover have "big_mod (c * y) ?N = Inr ((c * y) mod ?N)"
    using big c0 y(2) by (simp add: big_mod_nonneg)
  ultimately show ?thesis by (simp add: zkp_u_def x1 y(1))
qed

lemma simulateClause_ok:
  assumes "1 < n" "0 \<le> c" "coprime c n" "0 \<le> ei" "0 \<le> zi"
  shows "\<exists>ai. simulateClause c (newPublicKey n (n + 1)) mi ei zi = Inr ai \<and>
           verifyClause c (newPublicKey n (n + 1)) mi zi ei ai = Inr True"
proof -
  let ?N = "n * n"
  have big: "1 < ?N" by (rule square_gt1 [OF assms(1)])
  obtain ui where ui: "zkp_u c (newPublicKey n (n + 1)) mi = Inr ui" "0 \<le> ui" "coprime ui ?N"
    using zkp_u_ok [OF assms(1-3)] by blast
  define zin where "zin = zi ^ nat n mod ?N"
  define uiei where "uiei = ui ^ nat ei mod ?N"
  have s1: "modPow zi n ?N = Inr zin"
    using big assms(1,5) by (simp add: modPow_correct zin_def)
  have s2: "modPow ui ei ?N = Inr uiei"
    using big assms(4) ui(2) by (simp add: modPow_correct uiei_def)
  have "coprime (ui ^ nat ei) ?N" using ui(3) by simp
  then have cu: "coprime uiei ?N" unfolding uiei_def using big by (rule coprime_mod_self)
  have u0: "0 \<le> uiei" using big by (simp add: uiei_def)
  have z0: "0 \<le> zin" "zin < ?N" using big by (simp_all add: zin_def)
  obtain w where w: "modInv uiei ?N = Inr w" "0 \<le> w" "(uiei * w) mod ?N = 1"
    using modInv_correct [OF big u0 cu] by blast
  define ai where "ai = (zin * w) mod ?N"
  have s3: "big_mod (zin * w) ?N = Inr ai"
    using big z0(1) w(2) by (simp add: big_mod_nonneg ai_def)
  have a0: "0 \<le> ai" using big by (simp add: ai_def)
  have s4: "big_mod (ai * uiei) ?N = Inr ((ai * uiei) mod ?N)"
    using big a0 u0 by (simp add: big_mod_nonneg)
  have "(ai * uiei) mod ?N = ((zin * w) * uiei) mod ?N"
    unfolding ai_def by (rule mod_mult_left_eq)
  also have "\<dots> = (zin * (uiei * w)) mod ?N"
    by (simp add: mult.assoc mult.left_commute mult.commute)
  also have "\<dots> = (zin * ((uiei * w) mod ?N)) mod ?N"
    by (rule mod_mult_right_eq [symmetric])
  also have "\<dots> = zin" using z0 by (simp add: w(3))
  finally have eq: "(ai * uiei) mod ?N = zin" .
  have "simulateClause c (newPublicKey n (n + 1)) mi ei zi = Inr ai"
    by (simp add: simulateClause_def ui(1) s1 s2 w(1) s3)
  moreover have "verifyClause c (newPublicKey n (n + 1)) mi zi ei ai = Inr True"
    by (simp add: verifyClause_def ui(1) s1 s2 s4 eq)
  ultimately show ?thesis by blast
qed

lemma realClause_ok:
  assumes "1 < n" "0 \<le> m" "c = ((1 + n * m) * r ^ nat n) mod (n * n)"
    and "0 \<le> omega" "0 \<le> ek" "zk = (omega * (r ^ nat ek mod n)) mod n"
  shows "verifyClause c (newPublicKey n (n + 1)) m zk ek (omega ^ nat n mod (n * n)) = Inr True"
proof -
  let ?N = "n * n"
  have big: "1 < ?N" by (rule square_gt1 [OF assms(1)])
  have u: "zkp_u c (newPublicKey n (n + 1)) m = Inr (r ^ nat n mod ?N)"
    by (rule zkp_u_real [OF assms(1-3)])
  have zk0: "0 \<le> zk" using assms(1) by (simp add: assms(6))
  have s1: "modPow zk n ?N = Inr (zk ^ nat n mod ?N)"
    using big assms(1) zk0 by (simp add: modPow_correct)
  have "(r ^ nat n mod ?N) ^ nat ek mod ?N = (r ^ nat n) ^ nat ek mod ?N" by (rule power_mod)
  then have s2: "modPow (r ^ nat n mod ?N) ek ?N = Inr ((r ^ nat n) ^ nat ek mod ?N)"
    using big assms(5) by (simp add: modPow_correct)
  have s3: "big_mod ((omega ^ nat n mod ?N) * ((r ^ nat n) ^ nat ek mod ?N)) ?N =
      Inr (((omega ^ nat n mod ?N) * ((r ^ nat n) ^ nat ek mod ?N)) mod ?N)"
    using big by (intro big_mod_nonneg) simp_all
  have "((omega ^ nat n mod ?N) * ((r ^ nat n) ^ nat ek mod ?N)) mod ?N =
      (omega ^ nat n * (r ^ nat n) ^ nat ek) mod ?N" by (rule mod_mult_eq)
  also have "omega ^ nat n * (r ^ nat n) ^ nat ek = (omega * r ^ nat ek) ^ nat n"
    by (simp add: power_mult_distrib power_mult [symmetric] mult.commute)
  finally have rhs: "((omega ^ nat n mod ?N) * ((r ^ nat n) ^ nat ek mod ?N)) mod ?N =
      (omega * r ^ nat ek) ^ nat n mod ?N" .
  have "zk mod n = (omega * r ^ nat ek) mod n"
    unfolding assms(6) by (simp add: mod_mult_right_eq)
  then have "n dvd zk - omega * r ^ nat ek" by (rule mod_eq_dvd_iff [THEN iffD1])
  then have "int (nat n) dvd zk - omega * r ^ nat ek" using assms(1) by simp
  then have "(int (nat n) * int (nat n)) dvd zk ^ nat n - (omega * r ^ nat ek) ^ nat n"
    by (rule power_cong_square)
  then have "?N dvd zk ^ nat n - (omega * r ^ nat ek) ^ nat n" using assms(1) by simp
  then have lhs: "zk ^ nat n mod ?N = (omega * r ^ nat ek) ^ nat n mod ?N"
    by (rule mod_eq_dvd_iff [THEN iffD2])
  show ?thesis
    by (simp add: verifyClause_def u s1 s2 s3 rhs lhs)
qed


lemma bindE_eq_Inr: "bindE x f = Inr r \<longleftrightarrow> (\<exists>v. x = Inr v \<and> f v = Inr r)"
  by (cases x) simp_all

lemma createZkp_loop_succeeds:
  assumes "1 < n" "0 \<le> c" "coprime c n" "\<forall>i. 0 \<le> rnd_e i" "\<forall>i. 0 \<le> rnd_z i"
  shows "\<exists>res. createZkp_loop rnd_e rnd_z omega m c (newPublicKey n (n + 1)) i vs st = Inr res"
proof (induction vs arbitrary: i st)
  case Nil
  then show ?case by simp
next
  case (Cons mi vs)
  obtain cm mk where st: "st = (cm, mk)" by (cases st)
  show ?case
  proof (cases "mi = m")
    case True
    obtain ui where ui: "zkp_u c (newPublicKey n (n + 1)) m = Inr ui"
      using zkp_u_ok [OF assms(1-3)] by blast
    obtain ai where ai: "modPow omega n (n * n) = Inr ai"
      using modPow_nonneg_exponent [of "n * n" n omega] assms(1) by auto
    show ?thesis
      unfolding st createZkp_loop_Cons using True Cons.IH by (simp add: ui ai)
  next
    case False
    obtain ai where ai: "simulateClause c (newPublicKey n (n + 1)) mi (rnd_e i) (rnd_z i) = Inr ai"
      using simulateClause_ok [OF assms(1-3)] assms(4,5) by blast
    show ?thesis
      unfolding st createZkp_loop_Cons using False Cons.IH by (simp add: ai)
  qed
qed

lemma createZkp_loop_frame:
  "createZkp_loop rnd_e rnd_z omega m c pub i vs (cm, mk) = Inr (cm', mk') \<Longrightarrow>
   length (zkp_a cm') = length (zkp_a cm) \<and> length (zkp_e cm') = length (zkp_e cm) \<and>
   length (zkp_z cm') = length (zkp_z cm) \<and>
   (\<forall>j<i. zkp_a cm' ! j = zkp_a cm ! j \<and> zkp_e cm' ! j = zkp_e cm ! j \<and>
      zkp_z cm' ! j = zkp_z cm ! j)"
proof (induction vs arbitrary: i cm mk)
  case Nil
  then show ?case by simp
next
  case (Cons mi vs)
  show ?case
  proof (cases "mi = m")
    case True
    obtain ai where rec: "createZkp_loop rnd_e rnd_z omega m c pub (Suc i) vs
        (cm\<lparr>zkp_a := (zkp_a cm)[i := Some ai]\<rparr>, int i) = Inr (cm', mk')"
      using Cons.prems True unfolding createZkp_loop_Cons by (auto simp: bindE_eq_Inr)
    show ?thesis using Cons.IH [OF rec] by simp
  next
    case False
    obtain ai where rec: "createZkp_loop rnd_e rnd_z omega m c pub (Suc i) vs
        (cm\<lparr>zkp_e := (zkp_e cm)[i := Some (rnd_e i)], zkp_z := (zkp_z cm)[i := Some (rnd_z i)],
            zkp_a := (zkp_a cm)[i := Some ai]\<rparr>, mk) = Inr (cm', mk')"
      using Cons.prems False unfolding createZkp_loop_Cons by (auto simp: bindE_eq_Inr)
    show ?thesis using Cons.IH [OF rec] by simp
  qed
qed

lemma createZkp_loop_entries:
  "createZkp_loop rnd_e rnd_z omega m c pub i vs (cm, mk) = Inr (cm', mk') \<Longrightarrow>
   j < length vs \<Longrightarrow>
   i + length vs \<le> length (zkp_a cm) \<Longrightarrow> i + length vs \<le> length (zkp_e cm) \<Longrightarrow>
   i + length vs \<le> length (zkp_z cm) \<Longrightarrow>
   (vs ! j \<noteq> m \<longrightarrow>
      zkp_e cm' ! (i + j) = Some (rnd_e (i + j)) \<and> zkp_z cm' ! (i + j) = Some (rnd_z (i + j)) \<and>
      (\<exists>ai. zkp_a cm' ! (i + j) = Some ai \<and>
         simulateClause c pub (vs ! j) (rnd_e (i + j)) (rnd_z (i + j)) = Inr ai)) \<and>
   (vs ! j = m \<longrightarrow>
      (\<exists>ai. zkp_a cm' ! (i + j) = Some ai \<and>
         modPow omega (pub_n pub) (pub_nSquared pub) = Inr ai) \<and>
      zkp_e cm' ! (i + j) = zkp_e cm ! (i + j) \<and> zkp_z cm' ! (i + j) = zkp_z cm ! (i + j))"
proof (induction vs arbitrary: i cm mk j)
  case Nil
  then show ?case by simp
next
  case (Cons mi vs)
  show ?case
  proof (cases "mi = m")
    case True
    let ?cm1 = "\<lambda>ai. cm\<lparr>zkp_a := (zkp_a cm)[i := Some ai]\<rparr>"
    obtain ai where ai: "modPow omega (pub_n pub) (pub_nSquared pub) = Inr ai"
      and rec: "createZkp_loop rnd_e rnd_z omega m c pub (Suc i) vs (?cm1 ai, int i) =
        Inr (cm', mk')"
      using Cons.prems(1) True unfolding createZkp_loop_Cons by (auto simp: bindE_eq_Inr)
    show ?thesis
    proof (cases j)
      case 0
      have "zkp_a cm' ! i = zkp_a (?cm1 ai) ! i \<and> zkp_e cm' ! i = zkp_e (?cm1 ai) ! i \<and>
          zkp_z cm' ! i = zkp_z (?cm1 ai) ! i"
        using createZkp_loop_frame [OF rec] by simp
      then show ?thesis using 0 True ai Cons.prems(3) by simp
    next
      case (Suc j')
      have "j' < length vs" using Cons.prems(2) Suc by simp
      then show ?thesis
        using Cons.IH [OF rec, of j'] Cons.prems(3-5) Suc by simp
    qed
  next
    case False
    let ?cm1 = "\<lambda>ai. cm\<lparr>zkp_e := (zkp_e cm)[i := Some (rnd_e i)],
        zkp_z := (zkp_z cm)[i := Some (rnd_z i)], zkp_a := (zkp_a cm)[i := Some ai]\<rparr>"
    obtain ai where ai: "simulateClause c pub mi (rnd_e i) (rnd_z i) = Inr ai"
      and rec: "createZkp_loop rnd_e rnd_z omega m c pub (Suc i) vs (?cm1 ai, mk) =
        Inr (cm', mk')"
      using Cons.prems(1) False unfolding createZkp_loop_Cons by (auto simp: bindE_eq_Inr)
    show ?thesis
    proof (cases j)
      case 0
      have "zkp_a cm' ! i = zkp_a (?cm1 ai) ! i \<and> zkp_e cm' ! i = zkp_e (?cm1 ai) ! i \<and>
          zkp_z cm' ! i = zkp_z (?cm1 ai) ! i"
        using createZkp_loop_frame [OF rec] by simp
      then show ?thesis using 0 False ai Cons.prems(3-5) by simp
    next
      case (Suc j')
      have "j' < length vs" using Cons.prems(2) Suc by simp
      then show ?thesis
        using Cons.IH [OF rec, of j'] Cons.prems(3-5) Suc by simp
    qed
  qed
qed

lemma createZkp_loop_mk_absent:
  "createZkp_loop rnd_e rnd_z omega m c pub i vs (cm, mk) = Inr (cm', mk') \<Longrightarrow>
   m \<notin> set vs \<Longrightarrow> mk' = mk"
proof (induction vs arbitrary: i cm)
  case Nil
  then show ?case by simp
next
  case (Cons mi vs)
  have ne: "mi \<noteq> m" "m \<notin> set vs" using Cons.prems(2) by auto
  obtain cm1 where "createZkp_loop rnd_e rnd_z omega m c pub (Suc i) vs (cm1, mk) = Inr (cm', mk')"
    using Cons.prems(1) ne(1) unfolding createZkp_loop_Cons by (auto simp: bindE_eq_Inr)
  then show ?case using Cons.IH ne(2) by blast
qed

lemma createZkp_loop_mk:
  "createZkp_loop rnd_e rnd_z omega m c pub i (xs @ m # ys) (cm, mk) = Inr (cm', mk') \<Longrightarrow>
   m \<notin> set ys \<Longrightarrow> mk' = int (i + length xs)"
proof (induction xs arbitrary: i cm mk)
  case Nil
  obtain cm1 where "createZkp_loop rnd_e rnd_z omega m c pub (Suc i) ys (cm1, int i) = Inr (cm', mk')"
    using Nil.prems(1) unfolding append_Nil createZkp_loop_Cons by (auto simp: bindE_eq_Inr)
  then show ?case using createZkp_loop_mk_absent Nil.prems(2) by fastforce
next
  case (Cons x xs)
  obtain cm1 mk1 where "createZkp_loop rnd_e rnd_z omega m c pub (Suc i) (xs @ m # ys) (cm1, mk1) =
      Inr (cm', mk')"
    using Cons.prems(1) unfolding append_Cons createZkp_loop_Cons
    by (auto simp: bindE_eq_Inr split: if_splits)
  then show ?case using Cons.IH [OF _ Cons.prems(2)] by fastforce
qed


lemma foldl_add_sum_list: "foldl (+) (y::int) ys = y + sum_list ys"
  by (induction ys arbitrary: y) simp_all

lemma reduce_add_sumSome:
  "List.map_filter id xs \<noteq> [] \<Longrightarrow> reduce_add xs = Inr (sumSome xs)"
  by (cases "List.map_filter id xs")
    (simp_all add: reduce_add_def sumSome_def foldl_add_sum_list)

lemma map_filter_id_nonempty:
  "j < length xs \<Longrightarrow> xs ! j = Some v \<Longrightarrow> List.map_filter id xs \<noteq> []"
proof -
  assume "j < length xs" "xs ! j = Some v"
  then have "Some v \<in> set xs" by (metis nth_mem)
  then have "filter (\<lambda>x. x \<noteq> None) xs \<noteq> []" by (auto simp: filter_empty_conv)
  then show ?thesis by (simp add: List.map_filter_def)
qed

lemma sumSome_update:
  "k < length xs \<Longrightarrow> xs ! k = None \<Longrightarrow> sumSome (xs[k := Some v]) = sumSome xs + v"
proof (induction xs arbitrary: k)
  case Nil
  then show ?case by simp
next
  case (Cons x xs)
  show ?case
  proof (cases k)
    case 0
    then show ?thesis using Cons.prems by (simp add: sumSome_def List.map_filter_simps)
  next
    case (Suc k')
    then have "sumSome (xs[k' := Some v]) = sumSome xs + v" using Cons by simp
    then show ?thesis
      using Suc by (cases x) (simp_all add: sumSome_def List.map_filter_simps)
  qed
qed

lemma sumSome_nonneg:
  "(\<And>j v. j < length xs \<Longrightarrow> xs ! j = Some v \<Longrightarrow> 0 \<le> v) \<Longrightarrow> 0 \<le> sumSome xs"
proof (induction xs)
  case Nil
  then show ?case by (simp add: sumSome_def List.map_filter_simps)
next
  case (Cons x xs)
  have "0 \<le> sumSome xs"
  proof (rule Cons.IH)
    fix j v assume "j < length xs" "xs ! j = Some v"
    then show "0 \<le> v" using Cons.prems [of "Suc j" v] by simp
  qed
  moreover have "\<And>v. x = Some v \<Longrightarrow> 0 \<le> v" using Cons.prems [of 0] by simp
  ultimately show ?case
    by (cases x) (simp_all add: sumSome_def List.map_filter_simps)
qed

lemma nth_unique_member:
  assumes "m \<notin> set xs" "m \<notin> set ys" "j < length (xs @ m # ys)"
  shows "(xs @ m # ys) ! j = m \<longleftrightarrow> j = length xs"
proof (cases "j < length xs")
  case True
  then have "(xs @ m # ys) ! j = xs ! j" by (simp add: nth_append)
  moreover have "xs ! j \<noteq> m" using True assms(1) by (metis nth_mem)
  ultimately show ?thesis using True by simp
next
  case False
  show ?thesis
  proof (cases "j = length xs")
    case True
    then show ?thesis by simp
  next
    case ne: False
    then obtain d where d: "j = length xs + Suc d" using False
      by (metis add_Suc_right less_iff_Suc_add linorder_neqE_nat)
    then have "d < length ys" using assms(3) by simp
    then have "ys ! d \<noteq> m" using assms(2) by (metis nth_mem)
    moreover have "(xs @ m # ys) ! j = ys ! d" by (simp add: d nth_append)
    ultimately show ?thesis using ne by simp
  qed
qed

lemma coprime_mod_square:
  fixes x n :: int
  assumes "coprime x n" "1 < n"
  shows "coprime (x mod (n * n)) n"
proof -
  have "coprime x (n * n)" using assms(1) by simp
  then have "coprime (x mod (n * n)) (n * n)" using square_gt1 [OF assms(2)] by (rule coprime_mod_self)
  then show ?thesis by simp
qed

lemma challenge_sum:
  fixes S H M :: int
  assumes "0 \<le> H" "H < M"
  shows "(S + (H - S mod M) mod M) mod M = H"
proof -
  have "(S + (H - S mod M) mod M) mod M = (S + (H - S mod M)) mod M"
    by (rule mod_add_right_eq)
  also have "S + (H - S mod M) = H + M * (S div M)"
    using mult_div_mod_eq [of M S] by linarith
  also have "(H + M * (S div M)) mod M = H mod M" by simp
  finally show ?thesis using assms by simp
qed


lemma zkp_complete:
  assumes n: "1 < n" and pub: "pub = newPublicKey n (n + 1)"
    and m: "0 \<le> m" "m < n" and r: "0 \<le> r" "coprime r n"
    and enc: "encryptWithR m pub r = Inr (c, r)"
    and valid: "valid = xs @ m # ys" "m \<notin> set xs" "m \<notin> set ys" "xs @ ys \<noteq> []"
    and om: "\<forall>w\<in>set omegas. 0 \<le> w" "\<exists>w\<in>set omegas. w < n"
    and rnd: "\<forall>i. 0 \<le> rnd_e i" "\<forall>i. 0 \<le> rnd_z i"
    and hash: "\<forall>a. 0 \<le> hashArr a \<and> hashArr a < 2 ^ 256"
  shows "\<exists>commitment. createZkp hashArr omegas rnd_e rnd_z m c r valid pub = Inr commitment \<and>
           verifyZkp hashArr c valid commitment pub = Inr True"
proof -
  let ?N = "n * n"
  define k where "k = length valid"
  define kap where "kap = length xs"
  have big: "1 < ?N" by (rule square_gt1 [OF n])
  have kk: "kap < k" by (simp add: k_def kap_def valid(1))
  have idx: "\<And>j. j < k \<Longrightarrow> (valid ! j = m \<longleftrightarrow> j = kap)"
    unfolding k_def kap_def valid(1) by (rule nth_unique_member [OF valid(2,3)])
  \<comment> \<open>the ciphertext\<close>
  have c: "c = ((1 + n * m) * r ^ nat n) mod ?N"
    using enc encryptWithR_form [OF n m r(1), of "n + 1"] by (simp add: pub)
  have c0: "0 \<le> c" using big by (simp add: c)
  have "coprime (1 + n * m) n"
  proof (rule coprimeI)
    fix d assume d: "d dvd 1 + n * m" "d dvd n"
    then have "d dvd (1 + n * m) - n * m" by (intro dvd_diff) simp_all
    then show "is_unit d" by simp
  qed
  then have "coprime ((1 + n * m) * r ^ nat n) n" using r(2) by simp
  then have cc: "coprime c n" unfolding c using n by (rule coprime_mod_square)
  \<comment> \<open>the prover's loop\<close>
  obtain omega where dr: "drawBelow n omegas = Inr omega" "omega \<in> set omegas"
    using drawBelow_Inr [OF om(2)] by blast
  then have o0: "0 \<le> omega" using om(1) by simp
  let ?init = "newZkpCommitment k"
  obtain cm' mk' where loop:
    "createZkp_loop rnd_e rnd_z omega m c pub 0 valid (?init, - 1) = Inr (cm', mk')"
    using createZkp_loop_succeeds [OF n c0 cc rnd, of omega m 0 valid "(?init, - 1)"]
    by (auto simp: pub)
  have len: "length (zkp_a cm') = k" "length (zkp_e cm') = k" "length (zkp_z cm') = k"
    using createZkp_loop_frame [OF loop] by (simp_all add: newZkpCommitment_def)
  have mk: "mk' = int kap"
    using createZkp_loop_mk [of rnd_e rnd_z omega m c pub 0 xs ys ?init "- 1" cm' mk']
      loop valid(1,3) by (simp add: kap_def)
  have ent: "\<And>j. j < k \<Longrightarrow>
     (valid ! j \<noteq> m \<longrightarrow>
        zkp_e cm' ! j = Some (rnd_e j) \<and> zkp_z cm' ! j = Some (rnd_z j) \<and>
        (\<exists>ai. zkp_a cm' ! j = Some ai \<and>
           simulateClause c pub (valid ! j) (rnd_e j) (rnd_z j) = Inr ai)) \<and>
     (valid ! j = m \<longrightarrow>
        (\<exists>ai. zkp_a cm' ! j = Some ai \<and> modPow omega (pub_n pub) (pub_nSquared pub) = Inr ai) \<and>
        zkp_e cm' ! j = None \<and> zkp_z cm' ! j = None)"
  proof -
    fix j assume j: "j < k"
    show "?thesis j"
      using createZkp_loop_entries [OF loop, of j] j
      by (simp add: k_def newZkpCommitment_def)
  qed
  have oN: "modPow omega n ?N = Inr (omega ^ nat n mod ?N)"
    using big n o0 by (simp add: modPow_correct)
  have real: "zkp_a cm' ! kap = Some (omega ^ nat n mod ?N)" "zkp_e cm' ! kap = None"
      "zkp_z cm' ! kap = None"
    using ent [OF kk] idx [OF kk] oN by (auto simp: pub)
  have sim: "\<And>j. j < k \<Longrightarrow> j \<noteq> kap \<Longrightarrow>
      zkp_e cm' ! j = Some (rnd_e j) \<and> zkp_z cm' ! j = Some (rnd_z j) \<and>
      (\<exists>ai. zkp_a cm' ! j = Some ai \<and>
         verifyClause c pub (valid ! j) (rnd_z j) (rnd_e j) ai = Inr True)"
  proof -
    fix j assume j: "j < k" "j \<noteq> kap"
    then have ne: "valid ! j \<noteq> m" using idx by simp
    obtain ai where ai: "zkp_a cm' ! j = Some ai"
        "simulateClause c pub (valid ! j) (rnd_e j) (rnd_z j) = Inr ai"
      using ent [OF j(1)] ne by blast
    obtain ai2 where ai2: "simulateClause c pub (valid ! j) (rnd_e j) (rnd_z j) = Inr ai2"
        "verifyClause c pub (valid ! j) (rnd_z j) (rnd_e j) ai2 = Inr True"
      using simulateClause_ok [OF n c0 cc, of "rnd_e j" "rnd_z j" "valid ! j"] rnd
      by (auto simp: pub)
    have "ai = ai2" using ai(2) ai2(1) by simp
    then show "zkp_e cm' ! j = Some (rnd_e j) \<and> zkp_z cm' ! j = Some (rnd_z j) \<and>
      (\<exists>ai. zkp_a cm' ! j = Some ai \<and>
         verifyClause c pub (valid ! j) (rnd_z j) (rnd_e j) ai = Inr True)"
      using ent [OF j(1)] ne ai(1) ai2(2) by simp
  qed
  \<comment> \<open>the challenge\<close>
  obtain j0 where j0: "j0 < k" "j0 \<noteq> kap"
  proof (cases xs)
    case Nil
    then have "ys \<noteq> []" using valid(4) by simp
    then have "Suc 0 < k \<and> Suc 0 \<noteq> kap" by (simp add: k_def kap_def valid(1) Nil)
    then show ?thesis using that by blast
  next
    case (Cons x xs')
    then have "0 < k \<and> 0 \<noteq> kap" by (simp add: k_def kap_def valid(1))
    then show ?thesis using that by blast
  qed
  define S where "S = sumSome (zkp_e cm')"
  define H where "H = hashArr (zkp_a cm')"
  define ek where "ek = (H - S mod hashMod) mod hashMod"
  define zk where "zk = (omega * (r ^ nat ek mod n)) mod n"
  have M: "0 < hashMod" by (simp add: hashMod_def)
  have HM: "0 \<le> H" "H < hashMod" using hash by (simp_all add: H_def hashMod_def)
  have ne1: "List.map_filter id (zkp_e cm') \<noteq> []"
    using map_filter_id_nonempty [of j0 "zkp_e cm'"] sim [OF j0] j0(1) len(2) by simp
  have red1: "reduce_add (zkp_e cm') = Inr S"
    unfolding S_def by (rule reduce_add_sumSome [OF ne1])
  have S0: "0 \<le> S"
    unfolding S_def
  proof (rule sumSome_nonneg)
    fix j v assume jv: "j < length (zkp_e cm')" "zkp_e cm' ! j = Some v"
    then have "j \<noteq> kap" using real(2) by auto
    then have "v = rnd_e j" using sim [of j] jv len(2) by simp
    then show "0 \<le> v" using rnd(1) by simp
  qed
  have bm1: "big_mod S hashMod = Inr (S mod hashMod)"
    using S0 M by (simp add: big_mod_nonneg)
  have ek0: "0 \<le> ek" using M by (simp add: ek_def)
  have rek: "modPow r ek n = Inr (r ^ nat ek mod n)"
    using n r(1) ek0 by (simp add: modPow_correct)
  have bm2: "big_mod (omega * (r ^ nat ek mod n)) n = Inr zk"
    using n o0 by (simp add: big_mod_nonneg zk_def)
  define F where "F = cm'\<lparr>zkp_e := (zkp_e cm')[kap := Some ek],
      zkp_z := (zkp_z cm')[kap := Some zk]\<rparr>"
  have create: "createZkp hashArr omegas rnd_e rnd_z m c r valid pub = Inr F"
    using dr(1) loop red1 bm1 rek bm2
    by (simp add: createZkp_def pub k_def [symmetric] mk Let_def positiveMod_def
        H_def [symmetric] ek_def [symmetric] F_def)
  \<comment> \<open>the verifier\<close>
  have Fa: "zkp_a F = zkp_a cm'" and Fe: "zkp_e F = (zkp_e cm')[kap := Some ek]"
    and Fz: "zkp_z F = (zkp_z cm')[kap := Some zk]" by (simp_all add: F_def)
  have ne2: "List.map_filter id (zkp_e F) \<noteq> []"
    using map_filter_id_nonempty [of kap "zkp_e F" ek] kk len(2) by (simp add: Fe)
  have "sumSome (zkp_e F) = S + ek"
    unfolding Fe S_def using kk len(2) real(2) by (intro sumSome_update) simp_all
  then have red2: "reduce_add (zkp_e F) = Inr (S + ek)"
    using reduce_add_sumSome [OF ne2] by simp
  have "(S + ek) mod hashMod = H"
    unfolding ek_def by (rule challenge_sum [OF HM])
  then have bm3: "big_mod (S + ek) hashMod = Inr H"
    using S0 ek0 M by (simp add: big_mod_nonneg)
  have vl: "verifyZkp_loop c F pub 0 valid = Inr True"
  proof (rule verifyZkp_loop_True)
    fix j assume "j < length valid"
    then have j: "j < k" by (simp add: k_def)
    show "\<exists>zi ei ai. elemAt (zkp_z F) (0 + j) = Some zi \<and> elemAt (zkp_e F) (0 + j) = Some ei \<and>
        elemAt (zkp_a F) (0 + j) = Some ai \<and> verifyClause c pub (valid ! j) zi ei ai = Inr True"
    proof (cases "j = kap")
      case True
      have v: "verifyClause c pub m zk ek (omega ^ nat n mod ?N) = Inr True"
        unfolding pub by (rule realClause_ok [OF n m(1) c o0 ek0 zk_def])
      have "valid ! j = m" using idx [OF j] True by simp
      then show ?thesis
        using True kk len real(1) v by (simp add: elemAt_def Fa Fe Fz)
    next
      case False
      then show ?thesis
        using sim [OF j False] j len by (auto simp: elemAt_def Fa Fe Fz)
    qed
  qed
  have "verifyZkp hashArr c valid F pub = Inr True"
    using red2 bm3 vl len
    by (simp add: verifyZkp_def Let_def Fa Fe Fz k_def [symmetric] H_def [symmetric])
  then show ?thesis using create by blast
qed

lemma zkp_complete_example:
  "\<exists>commitment.
     createZkp (\<lambda>a. 5) [17, 4] (\<lambda>i. 3) (\<lambda>i. 4) 7 83 2 [7, 3] (newPublicKey 15 16) =
       Inr commitment \<and>
     verifyZkp (\<lambda>a. 5) 83 [7, 3] commitment (newPublicKey 15 16) = Inr True"
proof -
  have enc: "encryptWithR 7 (newPublicKey 15 16) 2 = Inr (83, 2)" by code_simp
  have cop: "coprime (2::int) 15" by code_simp
  show ?thesis
    using zkp_complete [of 15 "newPublicKey 15 16" 7 2 83 "[7, 3]" "[]" "[3]" "[17, 4]"
        "\<lambda>i. 3" "\<lambda>i. 4" "\<lambda>a. 5"] enc cop
    by simp
qed

section \<open>Zero-knowledge proof on a singleton valid set\<close>

text \<open>
  C3. For the valid key pair of the primes 3 and 5, the plaintext 7 encrypted with
  \<open>r = 2\<close> and the valid set \<open>[7]\<close>, \<^verbatim>\<open>createZkp\<close> raises a \<open>TypeError\<close>, so that
  \<^verbatim>\<open>verifyZkp\<close> of its result does not return true; the verifier itself accepts the
  commitment \<open>a = [\<omega>\<^sup>n mod n\<^sup>2]\<close>, \<open>e = [\<epsilon>]\<close>, \<open>z = [\<omega> r\<^sup>\<epsilon> mod n]\<close> that the prover should
  have returned. (For valid sets with a second element in which \<open>m\<close> occurs once, the
  proof is accepted: lemma \<open>zkp_complete\<close>.)
\<close>

theorem zkp_singleton_fails:
  "validKeyPair 3 5 (newPublicKey 15 16) \<lparr>priv_lambda = 4, priv_mu = 4\<rparr> \<and>
   encryptWithR 7 (newPublicKey 15 16) 2 = Inr (83, 2) \<and>
   createZkp (\<lambda>a. 5) [4] (\<lambda>i. 3) (\<lambda>i. 4) 7 83 2 [7] (newPublicKey 15 16) = Inl TypeError \<and>
   bindE (createZkp (\<lambda>a. 5) [4] (\<lambda>i. 3) (\<lambda>i. 4) 7 83 2 [7] (newPublicKey 15 16))
     (\<lambda>commitment. verifyZkp (\<lambda>a. 5) 83 [7] commitment (newPublicKey 15 16)) = Inl TypeError \<and>
   verifyZkp (\<lambda>a. 5) 83 [7] \<lparr>zkp_a = [Some 199], zkp_e = [Some 5], zkp_z = [Some 8]\<rparr>
     (newPublicKey 15 16) = Inr True"
  by code_simp

section \<open>The 32-bit shifts of the vote codec\<close>

text \<open>
  Whatever its operands, \<^verbatim>\<open><<\<close> yields a signed 32-bit integer, so the comparison with
  \<^verbatim>\<open>Number.MAX_SAFE_INTEGER\<close> in \<^verbatim>\<open>encodeSingle\<close> and \<^verbatim>\<open>decode\<close> is never true.
\<close>

lemma shl32_bounds: "- (2 ^ 31) \<le> shl32 x k" "shl32 x k < 2 ^ 31"
  using sint_ge [of "push_bit (nat (k mod 32)) (word_of_int x :: 32 word)"]
    sint_lt [of "push_bit (nat (k mod 32)) (word_of_int x :: 32 word)"]
  by (simp_all add: shl32_def)

lemma shift_guard_never_fires: "shl32 x k < MAX_SAFE_INTEGER"
  using shl32_bounds(2) [of x k] by (simp add: MAX_SAFE_INTEGER_def)

text \<open>
  For \<open>2 \<le> bitsPerChoice \<le> 31\<close> the mask \<^verbatim>\<open>(1 << (bitsPerChoice - 1)) - 1\<close> is
  \<open>2\<^bsup>bitsPerChoice - 1\<^esup> - 1\<close>, and decoding an encoded single choice gives 1 at the choice
  and 0 elsewhere.
\<close>

lemma shl32_one:
  assumes "0 \<le> k" "k \<le> 30"
  shows "shl32 1 k = 2 ^ nat k"
proof -
  have k: "k mod 32 = k" using assms by simp
  have lt: "(2::int) ^ nat k < 2 ^ 31" using assms by (intro power_strict_increasing) simp_all
  have "push_bit (nat k) (word_of_int 1 :: 32 word) = word_of_int (2 ^ nat k)"
    by (simp add: push_bit_eq_mult)
  then have "shl32 1 k = sint (word_of_int (2 ^ nat k) :: 32 word)"
    by (simp add: shl32_def k)
  also have "\<dots> = signed_take_bit (LENGTH(32) - 1) ((2::int) ^ nat k)"
    by (rule sint_sbintrunc')
  also have "\<dots> = signed_take_bit 31 ((2::int) ^ nat k)" by simp
  also have "\<dots> = 2 ^ nat k"
  proof (rule signed_take_bit_int_eq_self)
    have "- (2 ^ 31) \<le> (0::int)" by simp
    also have "(0::int) \<le> 2 ^ nat k" by simp
    finally show "- (2 ^ 31) \<le> (2::int) ^ nat k" .
    show "(2::int) ^ nat k < 2 ^ 31" by (fact lt)
  qed
  finally show ?thesis .
qed

lemma sequenceE_map_Inr: "sequenceE (map (\<lambda>i. Inr (g i)) xs) = Inr (map g xs)"
  by (induction xs) simp_all


lemma decode_entry_power:
  assumes "0 \<le> i" "0 \<le> choice" "2 \<le> B" "B \<le> 31" "i * B \<le> 10000000"
  shows "decode_entry (2 ^ nat (B * choice)) B i = Inr (if i = choice then 1 else 0)"
proof -
  let ?x = "(2::int) ^ nat (B * choice)"
  have sr: "shiftRight ?x (i * B) = Inr (drop_bit (nat (i * B)) ?x)"
    using assms by (simp add: shiftRight_def)
  have m: "shl32 1 (B - 1) - 1 = mask (nat (B - 1))"
    using shl32_one [of "B - 1"] assms by (simp add: mask_eq_exp_minus_1)
  have val: "take_bit (nat (B - 1)) (drop_bit (nat (i * B)) ?x) = (if i = choice then 1 else 0)"
  proof (cases "i = choice")
    case True
    then have "drop_bit (nat (i * B)) ?x = 1" by (simp add: drop_bit_eq_div mult.commute)
    moreover have "take_bit (nat (B - 1)) (1::int) = 1" using assms by (simp add: take_bit_eq_mod)
    ultimately show ?thesis using True by simp
  next
    case False
    show ?thesis
    proof (cases "i < choice")
      case True
      define d where "d = choice - i"
      have d: "1 \<le> d" "choice = i + d" using True by (simp_all add: d_def)
      have "nat (B * choice) = nat (i * B) + nat (B * d)"
        using assms d by (simp add: nat_add_distrib [symmetric] algebra_simps)
      then have "drop_bit (nat (i * B)) ?x = 2 ^ nat (B * d)"
        by (simp add: drop_bit_eq_div power_add)
      moreover have "nat (B - 1) \<le> nat (B * d)"
      proof -
        have "B * 1 \<le> B * d" using d(1) assms(3) by (intro mult_left_mono) simp_all
        then show ?thesis by simp
      qed
      then have "take_bit (nat (B - 1)) ((2::int) ^ nat (B * d)) = 0"
        by (simp add: take_bit_eq_mod le_imp_power_dvd)
      ultimately show ?thesis using False by simp
    next
      case ge: False
      then have gt: "choice < i" using False by simp
      have "B * choice < i * B"
        using gt assms(3) by (simp add: mult.commute)
      then have "nat (B * choice) < nat (i * B)" using assms by (simp add: nat_less_iff)
      then have "?x < 2 ^ nat (i * B)" by (intro power_strict_increasing) simp_all
      then have "drop_bit (nat (i * B)) ?x = 0"
        by (simp add: drop_bit_eq_div div_pos_pos_trivial)
      then show ?thesis using False by simp
    qed
  qed
  show ?thesis
    by (simp only: decode_entry_def sr bindE_Inr m) (simp add: take_bit_eq_mask [symmetric] val)
qed

lemma decode_encodeSingle_small:
  assumes "0 \<le> choice" "choice < C" "2 \<le> C" "2 \<le> B" "B \<le> 31" "B * C \<le> 10000000"
  shows "encodeSingle choice C B 0 0 = Inr (2 ^ nat (B * choice)) \<and>
         decode (2 ^ nat (B * choice)) C B =
           Inr (map (\<lambda>i. if int i = choice then 1 else 0) [0 ..< nat C])"
proof -
  have le: "B * choice \<le> 10000000"
  proof -
    have "B * choice \<le> B * C" using assms(2,4) by (intro mult_left_mono) simp_all
    then show ?thesis using assms(6) by simp
  qed
  have enc: "encodeSingle choice C B 0 0 = Inr (2 ^ nat (B * choice))"
    using assms le shift_guard_never_fires [of 2 "B - 1"]
    by (simp add: encodeSingle_def shiftLeft_def push_bit_eq_mult)
  have ent: "\<And>i. i \<in> set [0 ..< nat C] \<Longrightarrow>
      decode_entry (2 ^ nat (B * choice)) B (int i) = Inr (if int i = choice then 1 else 0)"
  proof -
    fix i assume "i \<in> set [0 ..< nat C]"
    then have i: "int i < C" by simp
    have "int i * B \<le> C * B" using i assms(4) by (intro mult_right_mono) simp_all
    then have "int i * B \<le> 10000000" using assms(6) by (simp add: mult.commute)
    then show "decode_entry (2 ^ nat (B * choice)) B (int i) = Inr (if int i = choice then 1 else 0)"
      using assms by (intro decode_entry_power) simp_all
  qed
  have eq: "map (\<lambda>i. decode_entry (2 ^ nat (B * choice)) B (int i)) [0 ..< nat C] =
      map (\<lambda>i. Inr (if int i = choice then 1 else 0)) [0 ..< nat C]"
    using ent by (intro map_cong) simp_all
  have g: "\<not> shl32 2 (B - 1) \<ge> MAX_SAFE_INTEGER"
    using shift_guard_never_fires [of 2 "B - 1"] by simp
  have "2 * C \<le> B * C" using assms(3,4) by (intro mult_right_mono) simp_all
  then have "C < 4294967296" using assms(6) by linarith
  then have c: "\<not> (C < 0 \<or> 4294967296 \<le> C)" using assms(3) by simp
  have "decode (2 ^ nat (B * choice)) C B =
      Inr (map (\<lambda>i. if int i = choice then 1 else 0) [0 ..< nat C])"
    by (simp only: decode_def g c if_False eq sequenceE_map_Inr)
  then show ?thesis using enc by simp
qed

text \<open>
  C9. The guard \<^verbatim>\<open>2 << (bitsPerChoice - 1) >= Number.MAX_SAFE_INTEGER\<close> does not reject
  \<open>bitsPerChoice = 54\<close>, although \<open>2\<^sup>5\<^sup>4\<close> exceeds the safe integer maximum: the 32-bit shift
  gives \<open>2 << 21\<close>, and \<^verbatim>\<open>encodeSingle(0, 2, 54)\<close> returns 1. (The guard is false for every
  \<open>bitsPerChoice\<close>: lemma \<open>shift_guard_never_fires\<close>.)
\<close>

theorem encodeSingle_54_accepted:
  "MAX_SAFE_INTEGER < 2 ^ 54 \<and> shl32 2 (54 - 1) = 4194304 \<and> encodeSingle 0 2 54 0 0 = Inr 1"
  by (simp add: encodeSingle_def shl32_def MAX_SAFE_INTEGER_def shiftLeft_def)

text \<open>
  C8. With \<open>bitsPerChoice = 32\<close>, which the validation accepts, the mask
  \<^verbatim>\<open>(1 << 31) - 1\<close> is \<open>-2147483649\<close>, and decoding the encoding of choice 1 out of 2 gives
  \<open>[2\<^sup>3\<^sup>2, 1]\<close> instead of \<open>[0, 1]\<close>. (For \<open>2 \<le> bitsPerChoice \<le> 31\<close> the roundtrip holds:
  lemma \<open>decode_encodeSingle_small\<close>.)
\<close>

theorem decode_encodeSingle_32:
  "encodeSingle 1 2 32 0 0 = Inr 4294967296 \<and>
   shl32 1 (32 - 1) - 1 = - 2147483649 \<and>
   decode 4294967296 2 32 = Inr [4294967296, 1]"
  by (simp add: encodeSingle_def shiftLeft_def decode_def decode_entry_def shl32_def
      MAX_SAFE_INTEGER_def shiftRight_def upt_rec)

end
